theory Spec2Isabelle
  imports Main
begin

section \<open>Board state of \<open>CheckersGame\<close>\<close>

text \<open>
  The class holds an 8x8 numpy array of integers (\<open>0\<close> empty, \<open>1\<close> black piece,
  \<open>2\<close> black king, \<open>3\<close> white piece, \<open>4\<close> white king) and the player to move
  (\<open>1\<close> black, \<open>-1\<close> white). The array is a list of rows; coordinates are Python
  integers.
\<close>

type_synonym pos = "int \<times> int"
type_synonym move = "pos \<times> pos list"
type_synonym grid = "int list list"

record game =
  board :: grid
  current_player :: int

datatype py_error = IndexError | AttributeError

text \<open>The shape \<open>(8, 8)\<close> that \<open>np.zeros((8, 8))\<close> creates and item assignment keeps.\<close>

definition wf_board :: "grid \<Rightarrow> bool" where
  "wf_board b \<longleftrightarrow> length b = 8 \<and> list_all (\<lambda>r. length r = 8) b"

text \<open>
  Reads and writes at indices the caller has already bounded (\<open>range(8)\<close>, or a
  position that passed \<open>_is_valid_position\<close>).
\<close>

definition cell :: "grid \<Rightarrow> int \<Rightarrow> int \<Rightarrow> int" where
  "cell b row col = b ! nat row ! nat col"

definition set_cell :: "grid \<Rightarrow> int \<Rightarrow> int \<Rightarrow> int \<Rightarrow> grid" where
  "set_cell b row col v = b[nat row := (b ! nat row)[nat col := v]]"

text \<open>
  numpy indexing along an axis of length \<open>n\<close> with an arbitrary integer: a
  negative index counts from the end, anything outside \<open>[-n, n)\<close> raises
  \<open>IndexError\<close>.
\<close>

definition np_index :: "nat \<Rightarrow> int \<Rightarrow> py_error + nat" where
  "np_index n i =
     (if 0 \<le> i \<and> i < int n then Inr (nat i)
      else if - int n \<le> i \<and> i < 0 then Inr (nat (i + int n))
      else Inl IndexError)"

definition board_get :: "grid \<Rightarrow> int \<Rightarrow> int \<Rightarrow> py_error + int" where
  "board_get b row col =
     (case np_index (length b) row of
        Inl e \<Rightarrow> Inl e
      | Inr r \<Rightarrow>
          (case np_index (length (b ! r)) col of
             Inl e \<Rightarrow> Inl e
           | Inr c \<Rightarrow> Inr (b ! r ! c)))"

definition board_set :: "grid \<Rightarrow> int \<Rightarrow> int \<Rightarrow> int \<Rightarrow> py_error + grid" where
  "board_set b row col v =
     (case np_index (length b) row of
        Inl e \<Rightarrow> Inl e
      | Inr r \<Rightarrow>
          (case np_index (length (b ! r)) col of
             Inl e \<Rightarrow> Inl e
           | Inr c \<Rightarrow> Inr (b[r := (b ! r)[c := v]])))"

subsection \<open>\<open>__init__\<close> and \<open>_initialize_board\<close>\<close>

text \<open>
  One of the two nested loops of \<open>_initialize_board\<close>: for every row of \<open>rows\<close>
  and every column of \<open>range(8)\<close>, a square with \<open>(row + col) % 2 == 1\<close> gets
  the value \<open>v\<close>.
\<close>

definition fill_rows :: "int list \<Rightarrow> int \<Rightarrow> grid \<Rightarrow> grid" where
  "fill_rows rows v b =
     fold (\<lambda>row b1.
        fold (\<lambda>col b2. if (row + col) mod 2 = 1 then set_cell b2 row col v else b2)
          [0, 1, 2, 3, 4, 5, 6, 7] b1)
       rows b"

definition initialize_board :: "grid \<Rightarrow> grid" where
  "initialize_board b = fill_rows [5, 6, 7] 3 (fill_rows [0, 1, 2] 1 b)"

definition new_game :: game where
  "new_game =
     \<lparr>board = initialize_board (replicate 8 (replicate 8 0)), current_player = 1\<rparr>"

section \<open>Move enumeration\<close>

definition is_valid_position :: "int \<Rightarrow> int \<Rightarrow> bool" where
  "is_valid_position row col \<longleftrightarrow> 0 \<le> row \<and> row < 8 \<and> 0 \<le> col \<and> col < 8"

definition is_current_players_piece :: "game \<Rightarrow> int \<Rightarrow> bool" where
  "is_current_players_piece g piece =
     (if current_player g = 1 then piece \<in> set [1, 2] else piece \<in> set [3, 4])"

definition is_opponent_piece :: "game \<Rightarrow> int \<Rightarrow> bool" where
  "is_opponent_piece g piece =
     (if current_player g = 1 then piece \<in> set [3, 4] else piece \<in> set [1, 2])"

text \<open>The \<open>directions\<close> list that \<open>_get_normal_moves\<close> builds for a piece.\<close>

definition normal_directions :: "int \<Rightarrow> (int \<times> int) list" where
  "normal_directions piece =
     (if piece \<in> set [1, 2] then [(1, -1), (1, 1)] else []) @
     (if piece \<in> set [3, 4] then [(-1, -1), (-1, 1)] else []) @
     (if piece \<in> set [2, 4]
      then (if piece = 2 then [(-1, -1), (-1, 1)] else [(1, -1), (1, 1)])
      else [])"

definition get_normal_moves :: "game \<Rightarrow> int \<Rightarrow> int \<Rightarrow> pos list" where
  "get_normal_moves g row col =
     (let piece = cell (board g) row col
      in map (\<lambda>(dr, dc). (row + dr, col + dc))
           (filter (\<lambda>(dr, dc). is_valid_position (row + dr) (col + dc) \<and>
                                cell (board g) (row + dr) (col + dc) = 0)
              (normal_directions piece)))"

text \<open>The \<open>directions\<close> list that \<open>_find_capture_sequences\<close> builds for a piece.\<close>

definition capture_directions :: "int \<Rightarrow> (int \<times> int) list" where
  "capture_directions piece =
     (if piece \<in> set [2, 4] then [(2, -2), (2, 2), (-2, -2), (-2, 2)]
      else if piece = 1 then [(2, -2), (2, 2)]
      else if piece = 3 then [(-2, -2), (-2, 2)]
      else [])"

text \<open>
  The guard of one jump in \<open>_find_capture_sequences\<close>, in the source's order:
  landing square not visited, on the board, empty, and the square jumped over
  holds an opponent's piece (\<open>dx // 2\<close> is floor division).
\<close>

definition can_jump :: "game \<Rightarrow> int \<Rightarrow> int \<Rightarrow> pos set \<Rightarrow> int \<times> int \<Rightarrow> bool" where
  "can_jump g row col visited d =
     (case d of (dx, dy) \<Rightarrow>
        (row + dx, col + dy) \<notin> visited \<and>
        is_valid_position (row + dx) (col + dy) \<and>
        cell (board g) (row + dx) (col + dy) = 0 \<and>
        is_opponent_piece g (cell (board g) (row + dx div 2) (col + dy div 2)))"

text \<open>
  \<open>_find_capture_sequences\<close>. The source appends to the shared list
  \<open>all_sequences\<close>, which is threaded here and returned; \<open>visited\<close> gets the
  landing square added before the recursive call and removed after it, so each
  call sees the caller's set plus its own landing square. The piece is read from
  the board at the square the call is made for.
\<close>

function find_capture_sequences ::
  "game \<Rightarrow> int \<Rightarrow> int \<Rightarrow> pos list \<Rightarrow> pos list list \<Rightarrow> pos set \<Rightarrow> pos list list" where
  "find_capture_sequences g row col current_sequence all_sequences visited =
     (let piece = cell (board g) row col;
          directions = capture_directions piece;
          r = fold (\<lambda>d acc.
                if can_jump g row col visited d
                then (True,
                      find_capture_sequences g (row + fst d) (col + snd d)
                        (current_sequence @ [(row + fst d, col + snd d)]) (snd acc)
                        (insert (row + fst d, col + snd d) visited))
                else acc)
              directions (False, all_sequences)
      in if \<not> fst r \<and> current_sequence \<noteq> [] then snd r @ [current_sequence]
         else snd r)"
  by pat_completeness auto

lemma card_unvisited_less:
  assumes "finite A" "x \<in> A" "x \<notin> V"
  shows "card (A - insert x V) < card (A - V)"
proof -
  have "A - insert x V \<subset> A - V" using assms by auto
  moreover have "finite (A - V)" using assms by simp
  ultimately show ?thesis by (rule psubset_card_mono[rotated])
qed

text \<open>
  Every recursive call is made for a landing square that is on the board and not
  yet in \<open>visited\<close>, so the number of unvisited squares of the board decreases.
\<close>

termination find_capture_sequences
proof (relation "measure (\<lambda>(g, row, col, cs, al, visited). card (({0..7} \<times> {0..7}) - visited))")
  show "wf (measure (\<lambda>(g, row, col, cs, al, visited).
              card (({0..7::int} \<times> {0..7::int}) - visited)))"
    by simp
next
  fix g :: game and row col :: int and current_sequence :: "pos list"
    and all_sequences :: "pos list list" and visited :: "pos set"
    and d :: "int \<times> int" and acc :: "bool \<times> pos list list"
  assume "can_jump g row col visited d"
  then have "(row + fst d, col + snd d) \<in> {0..7} \<times> {0..7}"
    and "(row + fst d, col + snd d) \<notin> visited"
    by (auto simp: can_jump_def is_valid_position_def split: prod.splits)
  then have "card ({0..7} \<times> {0..7} - insert (row + fst d, col + snd d) visited)
      < card ({0..7} \<times> {0..7} - visited)"
    by (intro card_unvisited_less) simp_all
  then show "((g, row + fst d, col + snd d,
         current_sequence @ [(row + fst d, col + snd d)], snd acc,
         insert (row + fst d, col + snd d) visited),
        g, row, col, current_sequence, all_sequences, visited)
       \<in> measure (\<lambda>(g, row, col, cs, al, visited). card (({0..7} \<times> {0..7}) - visited))"
    by simp
qed

definition get_capture_moves :: "game \<Rightarrow> int \<Rightarrow> int \<Rightarrow> pos list list" where
  "get_capture_moves g row col = find_capture_sequences g row col [] [] {}"

text \<open>The squares in the order of the two nested \<open>range(8)\<close> loops.\<close>

definition all_positions :: "pos list" where
  "all_positions =
     concat (map (\<lambda>row. map (\<lambda>col. (row, col)) [0, 1, 2, 3, 4, 5, 6, 7])
       [0, 1, 2, 3, 4, 5, 6, 7])"

text \<open>
  The body of the loops of \<open>get_valid_moves\<close> for one square; the state is the
  pair of the lists \<open>moves\<close> and \<open>capture_moves\<close>.
\<close>

definition scan_square :: "game \<Rightarrow> pos \<Rightarrow> move list \<times> move list \<Rightarrow> move list \<times> move list" where
  "scan_square g p acc =
     (let piece = cell (board g) (fst p) (snd p)
      in if is_current_players_piece g piece
         then (let piece_captures = get_capture_moves g (fst p) (snd p)
               in if piece_captures \<noteq> []
                  then (fst acc, snd acc @ map (\<lambda>captures. (p, captures)) piece_captures)
                  else (fst acc @ map (\<lambda>move. (p, [move])) (get_normal_moves g (fst p) (snd p)),
                        snd acc))
         else acc)"

definition get_valid_moves :: "game \<Rightarrow> move list" where
  "get_valid_moves g =
     (let r = fold (scan_square g) all_positions ([], [])
      in if snd r \<noteq> [] then snd r else fst r)"

section \<open>Move application\<close>

text \<open>
  The loop of \<open>make_move\<close> over the destination sequence, from the square
  \<open>(row, col)\<close> the piece is on. The last element of the sequence is the step
  with \<open>i == len(moves) - 1\<close>. Board accesses are unguarded in the source, so a
  step can raise \<open>IndexError\<close>; the grid returned with the error is the one the
  exception leaves behind.
\<close>

fun walk_moves :: "grid \<Rightarrow> int \<Rightarrow> int \<Rightarrow> int \<Rightarrow> pos list \<Rightarrow> py_error option \<times> grid" where
  "walk_moves b row col piece [] = (None, b)"
| "walk_moves b row col piece ((new_row, new_col) # rest) =
     (case (if \<bar>new_row - row\<bar> = 2
            then board_set b ((new_row + row) div 2) ((new_col + col) div 2) 0
            else Inr b) of
        Inl e \<Rightarrow> (Some e, b)
      | Inr b1 \<Rightarrow>
          (if rest = []
           then (let piece1 = (if piece = 1 \<and> new_row = 7 then 2
                               else if piece = 3 \<and> new_row = 0 then 4
                               else piece)
                 in case board_set b1 new_row new_col piece1 of
                      Inl e \<Rightarrow> (Some e, b1)
                    | Inr b2 \<Rightarrow> walk_moves b2 new_row new_col piece1 rest)
           else walk_moves b1 new_row new_col piece rest))"

text \<open>
  \<open>make_move\<close>: the result is the exception raised, if any, and the engine state
  after the call. The player is switched only when the loop ran to its end.
\<close>

definition make_move :: "game \<Rightarrow> pos \<Rightarrow> pos list \<Rightarrow> py_error option \<times> game" where
  "make_move g start_pos moves =
     (case start_pos of (row, col) \<Rightarrow>
        (case board_get (board g) row col of
           Inl e \<Rightarrow> (Some e, g)
         | Inr piece \<Rightarrow>
             (case board_set (board g) row col 0 of
                Inl e \<Rightarrow> (Some e, g)
              | Inr b0 \<Rightarrow>
                  (case walk_moves b0 row col piece moves of
                     (Some e, b1) \<Rightarrow> (Some e, g\<lparr>board := b1\<rparr>)
                   | (None, b1) \<Rightarrow>
                       (None, g\<lparr>board := b1,
                                current_player := current_player g * (- 1)\<rparr>)))))"

section \<open>Status queries\<close>

definition is_game_over :: "game \<Rightarrow> bool" where
  "is_game_over g \<longleftrightarrow> length (get_valid_moves g) = 0"

definition get_winner :: "game \<Rightarrow> int option" where
  "get_winner g = (if \<not> is_game_over g then None else Some (- current_player g))"

text \<open>
  \<open>get_state\<close> evaluates \<open>self.board.deepcopy()\<close>. A numpy array has no attribute
  \<open>deepcopy\<close> (the function \<open>deepcopy\<close> imported from \<open>copy\<close> is never called), so
  the attribute lookup raises \<open>AttributeError\<close> for every board.
\<close>

definition get_state :: "game \<Rightarrow> py_error + grid" where
  "get_state g = Inl AttributeError"

section \<open>The enumeration as calls on the engine object\<close>

text \<open>
  Every method takes \<open>self\<close>. Here each method is a function from the engine
  state before the call to the value returned and the engine state after the
  call, and the state is handed from one statement to the next, so that an
  assignment to \<open>self.board\<close> or \<open>self.current_player\<close> anywhere in a body would
  show in the state returned.
\<close>

text \<open>The expression \<open>self.board[row][col]\<close> at bounded indices.\<close>

definition read_board :: "int \<Rightarrow> int \<Rightarrow> game \<Rightarrow> int \<times> game" where
  "read_board row col s = (cell (board s) row col, s)"

definition is_valid_position_call :: "int \<Rightarrow> int \<Rightarrow> game \<Rightarrow> bool \<times> game" where
  "is_valid_position_call row col s = (0 \<le> row \<and> row < 8 \<and> 0 \<le> col \<and> col < 8, s)"

definition is_current_players_piece_call :: "int \<Rightarrow> game \<Rightarrow> bool \<times> game" where
  "is_current_players_piece_call piece s =
     (if current_player s = 1 then (piece \<in> set [1, 2], s) else (piece \<in> set [3, 4], s))"

definition is_opponent_piece_call :: "int \<Rightarrow> game \<Rightarrow> bool \<times> game" where
  "is_opponent_piece_call piece s =
     (if current_player s = 1 then (piece \<in> set [3, 4], s) else (piece \<in> set [1, 2], s))"

text \<open>
  One iteration of the loop of \<open>_get_normal_moves\<close>; the state is the local
  list \<open>moves\<close> and the engine. The board is read only when the position is
  valid.
\<close>

definition normal_step_call ::
  "int \<Rightarrow> int \<Rightarrow> int \<times> int \<Rightarrow> pos list \<times> game \<Rightarrow> pos list \<times> game" where
  "normal_step_call row col d acc =
     (case acc of (moves, s) \<Rightarrow>
        (case is_valid_position_call (row + fst d) (col + snd d) s of (valid, s1) \<Rightarrow>
           if valid
           then (case read_board (row + fst d) (col + snd d) s1 of (v, s2) \<Rightarrow>
                   if v = 0 then (moves @ [(row + fst d, col + snd d)], s2) else (moves, s2))
           else (moves, s1)))"

definition get_normal_moves_call :: "int \<Rightarrow> int \<Rightarrow> game \<Rightarrow> pos list \<times> game" where
  "get_normal_moves_call row col s =
     (case read_board row col s of (piece, s1) \<Rightarrow>
        fold (normal_step_call row col) (normal_directions piece) ([], s1))"

text \<open>
  The guard of a jump, evaluated left to right with the short-circuit of
  \<open>and\<close>: membership in \<open>visited\<close>, \<open>_is_valid_position\<close>, the landing
  square, \<open>_is_opponent_piece\<close> of the square jumped over.
\<close>

definition can_jump_call ::
  "int \<Rightarrow> int \<Rightarrow> pos set \<Rightarrow> int \<times> int \<Rightarrow> game \<Rightarrow> bool \<times> game" where
  "can_jump_call row col visited d s =
     (if (row + fst d, col + snd d) \<in> visited then (False, s)
      else (case is_valid_position_call (row + fst d) (col + snd d) s of (valid, s1) \<Rightarrow>
        if \<not> valid then (False, s1)
        else (case read_board (row + fst d) (col + snd d) s1 of (landing, s2) \<Rightarrow>
          if landing \<noteq> 0 then (False, s2)
          else (case read_board (row + fst d div 2) (col + snd d div 2) s2 of (jumped, s3) \<Rightarrow>
            is_opponent_piece_call jumped s3))))"

lemma can_jump_call_landing:
  assumes "fst (can_jump_call row col visited d s)"
  shows "(row + fst d, col + snd d) \<in> {0..7} \<times> {0..7} - visited"
  using assms
  by (auto simp: can_jump_call_def is_valid_position_call_def read_board_def
      split: if_splits prod.splits)

text \<open>
  \<open>_find_capture_sequences\<close> on the engine: the state handed through the loop
  and through the recursive calls is the flag \<open>found_capture\<close>, the shared list
  \<open>all_sequences\<close> and the engine; \<open>visited\<close> is the caller's set plus the
  landing square, as the source restores it after each call.
\<close>

function find_capture_sequences_call ::
  "int \<Rightarrow> int \<Rightarrow> pos list \<Rightarrow> pos list list \<Rightarrow> pos set \<Rightarrow> game \<Rightarrow> pos list list \<times> game" where
  "find_capture_sequences_call row col current_sequence all_sequences visited s =
     (let p = read_board row col s;
          directions = capture_directions (fst p);
          r = fold (\<lambda>d acc.
                let j = can_jump_call row col visited d (snd (snd acc))
                in if fst j
                   then (let c = find_capture_sequences_call (row + fst d) (col + snd d)
                                   (current_sequence @ [(row + fst d, col + snd d)])
                                   (fst (snd acc))
                                   (insert (row + fst d, col + snd d) visited) (snd j)
                         in (True, fst c, snd c))
                   else (fst acc, fst (snd acc), snd j))
              directions (False, all_sequences, snd p)
      in if \<not> fst r \<and> current_sequence \<noteq> []
         then (fst (snd r) @ [current_sequence], snd (snd r))
         else (fst (snd r), snd (snd r)))"
  by pat_completeness auto

termination find_capture_sequences_call
proof (relation "measure (\<lambda>(row, col, cs, al, visited, s). card (({0..7} \<times> {0..7}) - visited))")
  show "wf (measure (\<lambda>(row, col, cs, al, visited, s).
              card (({0..7::int} \<times> {0..7::int}) - visited)))"
    by simp
next
  fix row col :: int and current_sequence :: "pos list"
    and all_sequences :: "pos list list" and visited :: "pos set" and s :: game
    and d :: "int \<times> int" and acc :: "bool \<times> pos list list \<times> game"
    and j :: "bool \<times> game"
  assume "j = can_jump_call row col visited d (snd (snd acc))" and "fst j"
  then have "(row + fst d, col + snd d) \<in> {0..7} \<times> {0..7} - visited"
    using can_jump_call_landing by blast
  then have "card ({0..7} \<times> {0..7} - insert (row + fst d, col + snd d) visited)
      < card ({0..7} \<times> {0..7} - visited)"
    by (intro card_unvisited_less) simp_all
  then show "((row + fst d, col + snd d,
         current_sequence @ [(row + fst d, col + snd d)], fst (snd acc),
         insert (row + fst d, col + snd d) visited, snd j),
        row, col, current_sequence, all_sequences, visited, s)
       \<in> measure (\<lambda>(row, col, cs, al, visited, s). card (({0..7} \<times> {0..7}) - visited))"
    by simp
qed


definition get_capture_moves_call :: "int \<Rightarrow> int \<Rightarrow> game \<Rightarrow> pos list list \<times> game" where
  "get_capture_moves_call row col s = find_capture_sequences_call row col [] [] {} s"

text \<open>
  The body of the loops of \<open>get_valid_moves\<close> for one square; the state is the
  local lists \<open>moves\<close> and \<open>capture_moves\<close> and the engine.
\<close>

definition scan_square_call ::
  "pos \<Rightarrow> move list \<times> move list \<times> game \<Rightarrow> move list \<times> move list \<times> game" where
  "scan_square_call p acc =
     (case acc of (moves, capture_moves, s) \<Rightarrow>
        (case read_board (fst p) (snd p) s of (piece, s1) \<Rightarrow>
           (case is_current_players_piece_call piece s1 of (mine, s2) \<Rightarrow>
              if mine
              then (case get_capture_moves_call (fst p) (snd p) s2 of (piece_captures, s3) \<Rightarrow>
                      if piece_captures \<noteq> []
                      then (moves,
                            capture_moves @ map (\<lambda>captures. (p, captures)) piece_captures, s3)
                      else (case get_normal_moves_call (fst p) (snd p) s3 of
                              (piece_moves, s4) \<Rightarrow>
                                (moves @ map (\<lambda>move. (p, [move])) piece_moves,
                                 capture_moves, s4)))
              else (moves, capture_moves, s2))))"

definition get_valid_moves_call :: "game \<Rightarrow> move list \<times> game" where
  "get_valid_moves_call s =
     (case fold scan_square_call all_positions ([], [], s) of
        (moves, capture_moves, s1) \<Rightarrow>
          (if capture_moves \<noteq> [] then capture_moves else moves, s1))"

definition is_game_over_call :: "game \<Rightarrow> bool \<times> game" where
  "is_game_over_call s =
     (case get_valid_moves_call s of (ms, s1) \<Rightarrow> (length ms = 0, s1))"

definition get_winner_call :: "game \<Rightarrow> int option \<times> game" where
  "get_winner_call s =
     (case is_game_over_call s of
        (over, s1) \<Rightarrow> if \<not> over then (None, s1) else (Some (- current_player s1), s1))"

section \<open>Notions used to state the properties\<close>

text \<open>
  The contribution of one square to the two lists of \<open>get_valid_moves\<close>: its
  capture candidates, and its simple moves when it has no capture.
\<close>

definition captures_of :: "game \<Rightarrow> pos \<Rightarrow> move list" where
  "captures_of g p =
     (if is_current_players_piece g (cell (board g) (fst p) (snd p))
      then map (\<lambda>captures. (p, captures)) (get_capture_moves g (fst p) (snd p))
      else [])"

definition simples_of :: "game \<Rightarrow> pos \<Rightarrow> move list" where
  "simples_of g p =
     (if is_current_players_piece g (cell (board g) (fst p) (snd p)) \<and>
         get_capture_moves g (fst p) (snd p) = []
      then map (\<lambda>move. (p, [move])) (get_normal_moves g (fst p) (snd p))
      else [])"

text \<open>
  The squares \<open>make_move\<close> clears along a destination sequence that starts from
  the square \<open>p\<close>: for every step whose row delta has magnitude 2, the square
  \<open>((new_row + row) // 2, (new_col + col) // 2)\<close>.
\<close>

fun capture_midpoints :: "pos \<Rightarrow> pos list \<Rightarrow> pos list" where
  "capture_midpoints p [] = []"
| "capture_midpoints p (q # qs) =
     (if \<bar>fst q - fst p\<bar> = 2
      then ((fst q + fst p) div 2, (snd q + snd p) div 2) # capture_midpoints q qs
      else capture_midpoints q qs)"

text \<open>The value \<open>make_move\<close> writes on the final square for a piece ending on a row.\<close>

definition promoted :: "int \<Rightarrow> int \<Rightarrow> int" where
  "promoted piece new_row =
     (if piece = 1 \<and> new_row = 7 then 2
      else if piece = 3 \<and> new_row = 0 then 4
      else piece)"

text \<open>Writing \<open>0\<close> on a list of squares, one after the other.\<close>

definition clear_squares :: "pos list \<Rightarrow> grid \<Rightarrow> grid" where
  "clear_squares ps b = fold (\<lambda>p b1. set_cell b1 (fst p) (snd p) 0) ps b"

text \<open>\<open>_is_valid_position\<close> on a position given as a pair.\<close>

definition on_board :: "pos \<Rightarrow> bool" where
  "on_board p \<longleftrightarrow> is_valid_position (fst p) (snd p)"

text \<open>
  The board after walking the piece of \<open>start\<close> along a non-empty sequence of
  squares of the board: start cleared, jumped squares cleared, piece written on
  the last square.
\<close>

definition moved_board :: "grid \<Rightarrow> pos \<Rightarrow> pos list \<Rightarrow> grid" where
  "moved_board b start moves =
     set_cell (clear_squares (capture_midpoints start moves)
                 (set_cell b (fst start) (snd start) 0))
       (fst (last moves)) (snd (last moves))
       (promoted (cell b (fst start) (snd start)) (fst (last moves)))"

text \<open>The number of steps of a move whose row delta has magnitude 2.\<close>

fun capture_steps :: "pos \<Rightarrow> pos list \<Rightarrow> nat" where
  "capture_steps p [] = 0"
| "capture_steps p (q # qs) = (if \<bar>fst q - fst p\<bar> = 2 then 1 else 0) + capture_steps q qs"

text \<open>The number of non-empty squares of the board.\<close>

definition count_pieces :: "grid \<Rightarrow> nat" where
  "count_pieces b = length (filter (\<lambda>p. cell b (fst p) (snd p) \<noteq> 0) all_positions)"

text \<open>
  Black to move with a man at \<open>(4, 3)\<close>; White men at \<open>(5, 4)\<close> and \<open>(5, 6)\<close>;
  the squares \<open>(6, 5)\<close> and \<open>(4, 7)\<close> are empty.
\<close>

definition chain_game :: game where
  "chain_game =
    \<lparr>board =
      [[0, 0, 0, 0, 0, 0, 0, 0],
       [0, 0, 0, 0, 0, 0, 0, 0],
       [0, 0, 0, 0, 0, 0, 0, 0],
       [0, 0, 0, 0, 0, 0, 0, 0],
       [0, 0, 0, 1, 0, 0, 0, 0],
       [0, 0, 0, 0, 3, 0, 3, 0],
       [0, 0, 0, 0, 0, 0, 0, 0],
       [0, 0, 0, 0, 0, 0, 0, 0]],
     current_player = 1\<rparr>"

text \<open>
  Side and rank in the encoding of the board: \<open>1\<close> and \<open>2\<close> are Black
  (side \<open>1\<close>), \<open>3\<close> and \<open>4\<close> are White (side \<open>-1\<close>); \<open>2\<close> and \<open>4\<close> are
  kings.
\<close>

definition side_of :: "int \<Rightarrow> int" where
  "side_of piece =
     (if piece \<in> set [1, 2] then 1 else if piece \<in> set [3, 4] then - 1 else 0)"

definition is_king :: "int \<Rightarrow> bool" where
  "is_king piece \<longleftrightarrow> piece \<in> set [2, 4]"

text \<open>
  A simple move is a single destination one diagonal step away; a capture move
  is a non-empty sequence in which every step is a jump over two rows.
\<close>

definition is_simple_move :: "pos \<Rightarrow> pos list \<Rightarrow> bool" where
  "is_simple_move start moves \<longleftrightarrow>
     length moves = 1 \<and> \<bar>fst (hd moves) - fst start\<bar> = 1 \<and> \<bar>snd (hd moves) - snd start\<bar> = 1"

definition is_capture_move :: "pos \<Rightarrow> pos list \<Rightarrow> bool" where
  "is_capture_move start moves \<longleftrightarrow> moves \<noteq> [] \<and> capture_steps start moves = length moves"

text \<open>A position with a capture for one Black man and simple moves for another.\<close>

definition capture_game :: game where
  "capture_game =
    \<lparr>board =
      [[0, 1, 0, 0, 0, 0, 0, 0],
       [0, 0, 0, 0, 0, 0, 0, 0],
       [0, 0, 0, 0, 0, 0, 0, 0],
       [0, 0, 0, 0, 0, 0, 0, 0],
       [0, 0, 0, 1, 0, 0, 0, 0],
       [0, 0, 0, 0, 3, 0, 0, 0],
       [0, 0, 0, 0, 0, 0, 0, 0],
       [0, 0, 0, 0, 0, 0, 0, 0]],
     current_player = 1\<rparr>"

text \<open>
  A position in which a Black man can be walked through row 7 and back, and one
  white man stands one step from row 0.
\<close>

definition promotion_game :: game where
  "promotion_game =
    \<lparr>board =
      [[0, 0, 0, 0, 0, 0, 0, 0],
       [3, 0, 0, 0, 0, 0, 0, 0],
       [0, 0, 0, 0, 0, 0, 0, 0],
       [0, 0, 0, 0, 0, 0, 0, 0],
       [0, 0, 0, 0, 0, 0, 0, 0],
       [0, 0, 1, 0, 0, 0, 0, 0],
       [0, 0, 0, 3, 0, 3, 0, 0],
       [0, 0, 0, 0, 0, 0, 0, 0]],
     current_player = 1\<rparr>"

text \<open>
  The parity invariant of the board: every square of the board with
  \<open>row + col\<close> even is empty.
\<close>

definition dark_only :: "grid \<Rightarrow> bool" where
  "dark_only b \<longleftrightarrow>
     list_all (\<lambda>p. (fst p + snd p) mod 2 = 0 \<longrightarrow> cell b (fst p) (snd p) = 0) all_positions"

text \<open>
  The engine states a game can reach: the state after \<open>__init__\<close>, and the
  state after \<open>make_move\<close> with a move of the current \<open>get_valid_moves\<close> result.
\<close>

inductive reachable :: "game \<Rightarrow> bool" where
  initial: "reachable new_game"
| move: "reachable g \<Longrightarrow> (start, moves) \<in> set (get_valid_moves g) \<Longrightarrow>
         reachable (snd (make_move g start moves))"

section \<open>Auxiliary facts\<close>

declare find_capture_sequences.simps [simp del]

subsection \<open>Cells of a well-formed board\<close>

lemma wf_board_row: "wf_board b \<Longrightarrow> r < 8 \<Longrightarrow> length (b ! r) = 8"
  by (simp add: wf_board_def list_all_length)

lemma wf_board_set_cell:
  assumes "wf_board b"
  shows "wf_board (set_cell b row col v)"
proof -
  have len: "length b = 8" and rows: "\<And>n. n < 8 \<Longrightarrow> length (b ! n) = 8"
    using assms by (simp_all add: wf_board_def list_all_length)
  have "length (b[nat row := (b ! nat row)[nat col := v]] ! n) = 8" if "n < 8" for n
    using that len rows by (cases "n = nat row") simp_all
  then show ?thesis
    using len by (simp add: wf_board_def set_cell_def list_all_length)
qed

lemma cell_set_cell:
  assumes "wf_board b" "is_valid_position row col" "is_valid_position row' col'"
  shows "cell (set_cell b row col v) row' col' =
           (if row' = row \<and> col' = col then v else cell b row' col')"
proof -
  have r: "nat row < length b" "nat row' < length b"
    using assms by (auto simp: wf_board_def is_valid_position_def)
  have c: "nat col < length (b ! nat row)"
    using assms wf_board_row[of b "nat row"] by (auto simp: is_valid_position_def)
  have eq: "nat row' = nat row \<longleftrightarrow> row' = row" "nat col' = nat col \<longleftrightarrow> col' = col"
    using assms by (auto simp: is_valid_position_def)
  show ?thesis
    using r c eq by (auto simp: cell_def set_cell_def nth_list_update)
qed

lemma board_get_valid:
  assumes "wf_board b" "is_valid_position row col"
  shows "board_get b row col = Inr (cell b row col)"
proof -
  have "nat row < 8" using assms(2) unfolding is_valid_position_def by arith
  then have "length (b ! nat row) = 8" using assms wf_board_row by blast
  then show ?thesis
    using assms
    by (simp add: board_get_def np_index_def cell_def wf_board_def is_valid_position_def)
qed

lemma board_set_valid:
  assumes "wf_board b" "is_valid_position row col"
  shows "board_set b row col v = Inr (set_cell b row col v)"
proof -
  have "nat row < 8" using assms(2) unfolding is_valid_position_def by arith
  then have "length (b ! nat row) = 8" using assms wf_board_row by blast
  then show ?thesis
    using assms
    by (simp add: board_set_def np_index_def set_cell_def wf_board_def is_valid_position_def)
qed

subsection \<open>The capture search\<close>

lemma capture_directions_empty: "capture_directions 0 = []"
  by (simp add: capture_directions_def)

lemma find_capture_sequences_empty_square:
  assumes "cell (board g) row col = 0"
  shows "find_capture_sequences g row col cs al vis = (if cs \<noteq> [] then al @ [cs] else al)"
  by (subst find_capture_sequences.simps) (simp add: assms capture_directions_empty)

lemma can_jump_landing_empty:
  "can_jump g row col vis d \<Longrightarrow> cell (board g) (row + fst d) (col + snd d) = 0"
  by (cases d) (simp add: can_jump_def)

lemma fold_jumps:
  "fold (\<lambda>d acc.
       if can_jump g row col vis d
       then (True, find_capture_sequences g (row + fst d) (col + snd d)
                     (cs @ [(row + fst d, col + snd d)]) (snd acc)
                     (insert (row + fst d, col + snd d) vis))
       else acc) ds (f, al) =
   (f \<or> filter (can_jump g row col vis) ds \<noteq> [],
    al @ map (\<lambda>d. cs @ [(row + fst d, col + snd d)]) (filter (can_jump g row col vis) ds))"
proof (induction ds arbitrary: f al)
  case Nil
  then show ?case by simp
next
  case (Cons d ds)
  show ?case
  proof (cases "can_jump g row col vis d")
    case True
    then show ?thesis
      by (simp add: Cons.IH find_capture_sequences_empty_square can_jump_landing_empty)
  next
    case False
    then show ?thesis by (simp add: Cons.IH)
  qed
qed

lemma find_capture_sequences_eq:
  "find_capture_sequences g row col cs al vis =
     (let js = filter (can_jump g row col vis) (capture_directions (cell (board g) row col))
      in if js = [] \<and> cs \<noteq> [] then al @ [cs]
         else al @ map (\<lambda>d. cs @ [(row + fst d, col + snd d)]) js)"
  by (subst find_capture_sequences.simps) (simp add: fold_jumps Let_def)

lemma get_capture_moves_eq:
  "get_capture_moves g row col =
     map (\<lambda>d. [(row + fst d, col + snd d)])
       (filter (can_jump g row col {}) (capture_directions (cell (board g) row col)))"
  by (simp add: get_capture_moves_def find_capture_sequences_eq)


subsection \<open>The scan of the board\<close>

lemma scan_square_eq:
  "scan_square g p acc = (fst acc @ simples_of g p, snd acc @ captures_of g p)"
  by (simp add: scan_square_def captures_of_def simples_of_def Let_def)

lemma fold_scan_square:
  "fold (scan_square g) ps acc =
     (fst acc @ concat (map (simples_of g) ps), snd acc @ concat (map (captures_of g) ps))"
  by (induction ps arbitrary: acc) (simp_all add: scan_square_eq)

lemma get_valid_moves_eq:
  "get_valid_moves g =
     (if concat (map (captures_of g) all_positions) \<noteq> []
      then concat (map (captures_of g) all_positions)
      else concat (map (simples_of g) all_positions))"
  by (simp add: get_valid_moves_def fold_scan_square Let_def)

lemma set_grid_positions:
  "set (concat (map (\<lambda>row. map (\<lambda>col. (row, col)) cs) rs)) = set rs \<times> set cs"
  by auto

lemma set_range8: "set [0, 1, 2, 3, 4, 5, 6, 7] = {0..7::int}"
  by auto

lemma set_all_positions: "set all_positions = {p. is_valid_position (fst p) (snd p)}"
  unfolding all_positions_def set_grid_positions set_range8
  by (auto simp: is_valid_position_def)

subsection \<open>The walk of \<open>make_move\<close> over squares of the board\<close>

lemma wf_board_clear_squares: "wf_board b \<Longrightarrow> wf_board (clear_squares ps b)"
  unfolding clear_squares_def
  by (induction ps arbitrary: b) (simp_all add: wf_board_set_cell)

lemma cell_clear_squares:
  assumes "wf_board b" "list_all on_board ps" "is_valid_position row col"
  shows "cell (clear_squares ps b) row col = (if (row, col) \<in> set ps then 0 else cell b row col)"
  using assms
proof (induction ps arbitrary: b)
  case Nil
  then show ?case by (simp add: clear_squares_def)
next
  case (Cons p ps)
  have step: "clear_squares (p # ps) b = clear_squares ps (set_cell b (fst p) (snd p) 0)"
    by (simp add: clear_squares_def)
  have "on_board p" and ps: "list_all on_board ps"
    using Cons.prems(2) by simp_all
  then have p: "is_valid_position (fst p) (snd p)"
    by (simp add: on_board_def)
  have "cell (clear_squares ps (set_cell b (fst p) (snd p) 0)) row col =
          (if (row, col) \<in> set ps then 0 else cell (set_cell b (fst p) (snd p) 0) row col)"
    using Cons.IH[OF wf_board_set_cell[OF Cons.prems(1)] ps Cons.prems(3)] .
  then show ?case
    unfolding step using cell_set_cell[OF Cons.prems(1) p Cons.prems(3), of 0]
    by (cases p) auto
qed

lemma midpoint_valid:
  assumes "is_valid_position row col" "is_valid_position new_row new_col"
  shows "is_valid_position ((new_row + row) div 2) ((new_col + col) div 2)"
  using assms unfolding is_valid_position_def by auto

lemma capture_midpoints_on_board:
  "on_board p \<Longrightarrow> list_all on_board qs \<Longrightarrow> list_all on_board (capture_midpoints p qs)"
  by (induction qs arbitrary: p) (auto simp: on_board_def midpoint_valid)

lemma walk_moves_on_board:
  assumes "wf_board b" "is_valid_position row col" "list_all on_board moves" "moves \<noteq> []"
  shows "walk_moves b row col piece moves =
           (None, set_cell (clear_squares (capture_midpoints (row, col) moves) b)
                    (fst (last moves)) (snd (last moves))
                    (promoted piece (fst (last moves))))"
  using assms
proof (induction moves arbitrary: b row col)
  case Nil
  then show ?case by simp
next
  case (Cons m rest)
  obtain new_row new_col where m: "m = (new_row, new_col)" by (cases m)
  have "on_board m" and rest: "list_all on_board rest"
    using Cons.prems(3) by simp_all
  then have vm: "is_valid_position new_row new_col"
    by (simp add: m on_board_def)
  have mid: "is_valid_position ((new_row + row) div 2) ((new_col + col) div 2)"
    using midpoint_valid[OF Cons.prems(2) vm] .
  define b1 where "b1 = (if \<bar>new_row - row\<bar> = 2
      then set_cell b ((new_row + row) div 2) ((new_col + col) div 2) 0 else b)"
  have wf1: "wf_board b1"
    using Cons.prems(1) by (simp add: b1_def wf_board_set_cell)
  have first: "(if \<bar>new_row - row\<bar> = 2
            then board_set b ((new_row + row) div 2) ((new_col + col) div 2) 0
            else Inr b) = Inr b1"
    by (simp add: b1_def board_set_valid[OF Cons.prems(1) mid])
  have clear: "clear_squares (capture_midpoints (row, col) (m # rest)) b =
      clear_squares (capture_midpoints (new_row, new_col) rest) b1"
    by (simp add: m b1_def clear_squares_def)
  show ?case
  proof (cases "rest = []")
    case True
    have "walk_moves b row col piece [m] =
        (None, set_cell b1 new_row new_col (promoted piece new_row))"
      unfolding m walk_moves.simps first
      by (simp add: board_set_valid[OF wf1 vm] promoted_def)
    then show ?thesis
      using clear by (simp add: True m clear_squares_def)
  next
    case False
    have "walk_moves b row col piece (m # rest) = walk_moves b1 new_row new_col piece rest"
      unfolding m walk_moves.simps first using False by simp
    also have "\<dots> = (None, set_cell (clear_squares (capture_midpoints (new_row, new_col) rest) b1)
                    (fst (last rest)) (snd (last rest)) (promoted piece (fst (last rest))))"
      using Cons.IH[OF wf1 vm rest False] .
    finally show ?thesis
      using False clear by simp
  qed
qed

lemma make_move_on_board:
  assumes "wf_board (board g)" "on_board start" "list_all on_board moves" "moves \<noteq> []"
  shows "make_move g start moves =
           (None, g\<lparr>board := moved_board (board g) start moves,
                    current_player := - current_player g\<rparr>)"
proof -
  obtain row col where start: "start = (row, col)" by (cases start)
  have v: "is_valid_position row col"
    using assms(2) by (simp add: start on_board_def)
  have wf0: "wf_board (set_cell (board g) row col 0)"
    using assms(1) by (rule wf_board_set_cell)
  show ?thesis
    unfolding make_move_def start
    by (simp add: board_get_valid[OF assms(1) v] board_set_valid[OF assms(1) v]
        walk_moves_on_board[OF wf0 v assms(3,4)] moved_board_def)
qed

lemma wf_moved_board: "wf_board b \<Longrightarrow> wf_board (moved_board b start moves)"
  by (simp add: moved_board_def wf_board_set_cell wf_board_clear_squares)

lemma last_on_board: "list_all on_board moves \<Longrightarrow> moves \<noteq> [] \<Longrightarrow> on_board (last moves)"
  by (induction moves) (auto split: if_splits)

lemma cell_moved_board:
  assumes "wf_board b" "on_board start" "list_all on_board moves" "moves \<noteq> []"
    and "is_valid_position row col"
  shows "cell (moved_board b start moves) row col =
           (if (row, col) = last moves
            then promoted (cell b (fst start) (snd start)) (fst (last moves))
            else if (row, col) = start \<or> (row, col) \<in> set (capture_midpoints start moves)
            then 0
            else cell b row col)"
proof -
  have vs: "is_valid_position (fst start) (snd start)"
    using assms(2) by (simp add: on_board_def)
  have vl: "is_valid_position (fst (last moves)) (snd (last moves))"
    using last_on_board[OF assms(3,4)] by (simp add: on_board_def)
  have wf0: "wf_board (set_cell b (fst start) (snd start) 0)"
    using assms(1) by (rule wf_board_set_cell)
  have mids: "list_all on_board (capture_midpoints start moves)"
    using assms(2,3) by (rule capture_midpoints_on_board)
  have wf1: "wf_board (clear_squares (capture_midpoints start moves)
                 (set_cell b (fst start) (snd start) 0))"
    using wf0 by (rule wf_board_clear_squares)
  let ?b0 = "set_cell b (fst start) (snd start) 0"
  let ?b1 = "clear_squares (capture_midpoints start moves) ?b0"
  have e2: "cell (moved_board b start moves) row col =
      (if row = fst (last moves) \<and> col = snd (last moves)
       then promoted (cell b (fst start) (snd start)) (fst (last moves))
       else cell ?b1 row col)"
    unfolding moved_board_def by (rule cell_set_cell[OF wf1 vl assms(5)])
  have e1: "cell ?b1 row col =
      (if (row, col) \<in> set (capture_midpoints start moves) then 0 else cell ?b0 row col)"
    by (rule cell_clear_squares[OF wf0 mids assms(5)])
  have e0: "cell ?b0 row col =
      (if row = fst start \<and> col = snd start then 0 else cell b row col)"
    by (rule cell_set_cell[OF assms(1) vs assms(5)])
  show ?thesis
    unfolding e2 e1 e0 by (auto simp: prod_eq_iff)
qed

subsection \<open>The moves that the enumeration returns\<close>

lemma in_captures_of:
  "(start, moves) \<in> set (captures_of g p) \<longleftrightarrow>
     start = p \<and> is_current_players_piece g (cell (board g) (fst p) (snd p)) \<and>
     (\<exists>d \<in> set (capture_directions (cell (board g) (fst p) (snd p))).
        can_jump g (fst p) (snd p) {} d \<and> moves = [(fst p + fst d, snd p + snd d)])"
  by (auto simp: captures_of_def get_capture_moves_eq)

lemma get_normal_moves_eq:
  "get_normal_moves g row col =
     map (\<lambda>d. (row + fst d, col + snd d))
       (filter (\<lambda>d. is_valid_position (row + fst d) (col + snd d) \<and>
                     cell (board g) (row + fst d) (col + snd d) = 0)
          (normal_directions (cell (board g) row col)))"
  by (simp add: get_normal_moves_def case_prod_unfold)

lemma in_simples_of:
  "(start, moves) \<in> set (simples_of g p) \<longleftrightarrow>
     start = p \<and> is_current_players_piece g (cell (board g) (fst p) (snd p)) \<and>
     get_capture_moves g (fst p) (snd p) = [] \<and>
     (\<exists>d \<in> set (normal_directions (cell (board g) (fst p) (snd p))).
        is_valid_position (fst p + fst d) (snd p + snd d) \<and>
        cell (board g) (fst p + fst d) (snd p + snd d) = 0 \<and>
        moves = [(fst p + fst d, snd p + snd d)])"
  by (auto simp: simples_of_def get_normal_moves_eq)

lemma valid_move_cases:
  assumes "(start, moves) \<in> set (get_valid_moves g)"
  obtains
    (capture) d where "on_board start"
      and "is_current_players_piece g (cell (board g) (fst start) (snd start))"
      and "d \<in> set (capture_directions (cell (board g) (fst start) (snd start)))"
      and "can_jump g (fst start) (snd start) {} d"
      and "moves = [(fst start + fst d, snd start + snd d)]"
  | (simple) d where "on_board start"
      and "is_current_players_piece g (cell (board g) (fst start) (snd start))"
      and "d \<in> set (normal_directions (cell (board g) (fst start) (snd start)))"
      and "is_valid_position (fst start + fst d) (snd start + snd d)"
      and "cell (board g) (fst start + fst d) (snd start + snd d) = 0"
      and "moves = [(fst start + fst d, snd start + snd d)]"
      and "concat (map (captures_of g) all_positions) = []"
proof (cases "concat (map (captures_of g) all_positions) = []")
  case True
  then have "(start, moves) \<in> set (concat (map (simples_of g) all_positions))"
    using assms by (simp add: get_valid_moves_eq)
  then obtain p where p: "p \<in> set all_positions" "(start, moves) \<in> set (simples_of g p)"
    by auto
  from p(2) have sp: "start = p" by (simp add: in_simples_of)
  have "on_board start"
    using p(1) by (simp add: sp set_all_positions on_board_def)
  with p(2) simple True show ?thesis
    unfolding sp in_simples_of by blast
next
  case False
  then have "(start, moves) \<in> set (concat (map (captures_of g) all_positions))"
    using assms by (simp add: get_valid_moves_eq)
  then obtain p where p: "p \<in> set all_positions" "(start, moves) \<in> set (captures_of g p)"
    by auto
  from p(2) have sp: "start = p" by (simp add: in_captures_of)
  have "on_board start"
    using p(1) by (simp add: sp set_all_positions on_board_def)
  with p(2) capture show ?thesis
    unfolding sp in_captures_of by blast
qed

lemma capture_direction_abs:
  "d \<in> set (capture_directions piece) \<Longrightarrow> \<bar>fst d\<bar> = 2 \<and> \<bar>snd d\<bar> = 2"
  by (auto simp: capture_directions_def split: if_splits)

lemma normal_direction_abs:
  "d \<in> set (normal_directions piece) \<Longrightarrow> \<bar>fst d\<bar> = 1 \<and> \<bar>snd d\<bar> = 1"
  by (auto simp: normal_directions_def split: if_splits)

subsection \<open>Counting pieces\<close>

lemma length_capture_midpoints: "length (capture_midpoints p qs) = capture_steps p qs"
  by (induction qs arbitrary: p) simp_all

lemma distinct_all_positions: "distinct all_positions"
  by (simp add: all_positions_def)

lemma count_pieces_card:
  "count_pieces b = card {p. on_board p \<and> cell b (fst p) (snd p) \<noteq> 0}"
proof -
  have "{p. on_board p \<and> cell b (fst p) (snd p) \<noteq> 0} =
        {p \<in> set all_positions. cell b (fst p) (snd p) \<noteq> 0}"
    by (auto simp: set_all_positions on_board_def)
  then show ?thesis
    by (simp add: count_pieces_def distinct_length_filter[OF distinct_all_positions] Int_def conj_commute)
qed

lemma finite_occupied: "finite {p. on_board p \<and> cell b (fst p) (snd p) \<noteq> 0}"
proof -
  have "{p. on_board p \<and> cell b (fst p) (snd p) \<noteq> 0} \<subseteq> set all_positions"
    by (auto simp: set_all_positions on_board_def)
  then show ?thesis by (rule finite_subset) simp
qed

lemma current_piece_nonzero: "is_current_players_piece g piece \<Longrightarrow> piece \<noteq> 0"
  by (auto simp: is_current_players_piece_def split: if_splits)

lemma opponent_piece_nonzero: "is_opponent_piece g piece \<Longrightarrow> piece \<noteq> 0"
  by (auto simp: is_opponent_piece_def split: if_splits)

lemma promoted_nonzero: "piece \<noteq> 0 \<Longrightarrow> promoted piece r \<noteq> 0"
  by (simp add: promoted_def)

text \<open>The shape of every move that the enumeration returns.\<close>

lemma valid_move_shape:
  assumes "(start, moves) \<in> set (get_valid_moves g)"
  obtains dest mids where
    "moves = [dest]" "on_board start" "on_board dest" "dest \<noteq> start"
    "is_current_players_piece g (cell (board g) (fst start) (snd start))"
    "cell (board g) (fst dest) (snd dest) = 0"
    "capture_midpoints start moves = mids"
    "mids = [] \<and> \<bar>fst dest - fst start\<bar> = 1 \<and> \<bar>snd dest - snd start\<bar> = 1 \<or>
     (\<exists>mid. mids = [mid] \<and> on_board mid \<and> mid \<noteq> start \<and> mid \<noteq> dest \<and>
        \<bar>fst dest - fst start\<bar> = 2 \<and> \<bar>snd dest - snd start\<bar> = 2 \<and>
        is_opponent_piece g (cell (board g) (fst mid) (snd mid)))"
  using assms
proof (cases rule: valid_move_cases)
  case (capture d)
  obtain r c where start: "start = (r, c)" by (cases start)
  obtain dx dy where d: "d = (dx, dy)" by (cases d)
  have abs: "\<bar>dx\<bar> = 2" "\<bar>dy\<bar> = 2"
    using capture_direction_abs[OF capture(3)] by (simp_all add: d)
  have j: "is_valid_position (r + dx) (c + dy)" "cell (board g) (r + dx) (c + dy) = 0"
    "is_opponent_piece g (cell (board g) (r + dx div 2) (c + dy div 2))"
    using capture(4) by (simp_all add: can_jump_def start d)
  have v: "is_valid_position r c"
    using capture(1) by (simp add: on_board_def start)
  have midv: "is_valid_position (r + dx div 2) (c + dy div 2)"
    using v j(1) abs unfolding is_valid_position_def by auto
  have mideq: "(r + dx + r) div 2 = r + dx div 2" "(c + dy + c) div 2 = c + dy div 2"
    using abs by auto
  show ?thesis
  proof (rule that[of "(r + dx, c + dy)" "[(r + dx div 2, c + dy div 2)]"])
    show "moves = [(r + dx, c + dy)]" using capture(5) by (simp add: start d)
    show "on_board start" by (rule capture(1))
    show "on_board (r + dx, c + dy)" using j(1) by (simp add: on_board_def)
    show "(r + dx, c + dy) \<noteq> start" using abs by (auto simp: start)
    show "is_current_players_piece g (cell (board g) (fst start) (snd start))"
      by (rule capture(2))
    show "cell (board g) (fst (r + dx, c + dy)) (snd (r + dx, c + dy)) = 0"
      using j(2) by simp
    show "capture_midpoints start moves = [(r + dx div 2, c + dy div 2)]"
      using abs mideq by (simp add: capture(5) start d)
    show "[(r + dx div 2, c + dy div 2)] = [] \<and>
        \<bar>fst (r + dx, c + dy) - fst start\<bar> = 1 \<and> \<bar>snd (r + dx, c + dy) - snd start\<bar> = 1 \<or>
        (\<exists>mid. [(r + dx div 2, c + dy div 2)] = [mid] \<and> on_board mid \<and> mid \<noteq> start \<and>
           mid \<noteq> (r + dx, c + dy) \<and>
           \<bar>fst (r + dx, c + dy) - fst start\<bar> = 2 \<and> \<bar>snd (r + dx, c + dy) - snd start\<bar> = 2 \<and>
           is_opponent_piece g (cell (board g) (fst mid) (snd mid)))"
      using abs j(3) midv by (auto simp: start on_board_def)
  qed
next
  case (simple d)
  obtain r c where start: "start = (r, c)" by (cases start)
  obtain dx dy where d: "d = (dx, dy)" by (cases d)
  have abs: "\<bar>dx\<bar> = 1" "\<bar>dy\<bar> = 1"
    using normal_direction_abs[OF simple(3)] by (simp_all add: d)
  show ?thesis
  proof (rule that[of "(r + dx, c + dy)" "[]"])
    show "moves = [(r + dx, c + dy)]" using simple(6) by (simp add: start d)
    show "on_board start" by (rule simple(1))
    show "on_board (r + dx, c + dy)" using simple(4) by (simp add: on_board_def start d)
    show "(r + dx, c + dy) \<noteq> start" using abs by (auto simp: start)
    show "is_current_players_piece g (cell (board g) (fst start) (snd start))"
      by (rule simple(2))
    show "cell (board g) (fst (r + dx, c + dy)) (snd (r + dx, c + dy)) = 0"
      using simple(5) by (simp add: start d)
    show "capture_midpoints start moves = []"
      using abs by (simp add: simple(6) start d)
    show "[] = [] \<and>
        \<bar>fst (r + dx, c + dy) - fst start\<bar> = 1 \<and> \<bar>snd (r + dx, c + dy) - snd start\<bar> = 1 \<or>
        (\<exists>mid. [] = [mid] \<and> on_board mid \<and> mid \<noteq> start \<and>
           mid \<noteq> (r + dx, c + dy) \<and>
           \<bar>fst (r + dx, c + dy) - fst start\<bar> = 2 \<and> \<bar>snd (r + dx, c + dy) - snd start\<bar> = 2 \<and>
           is_opponent_piece g (cell (board g) (fst mid) (snd mid)))"
      using abs by (simp add: start)
  qed
qed

section \<open>Applying a move of the enumeration\<close>

lemma valid_move_result:
  assumes "wf_board (board g)" "(start, moves) \<in> set (get_valid_moves g)"
  shows "make_move g start moves =
           (None, g\<lparr>board := moved_board (board g) start moves,
                    current_player := - current_player g\<rparr>)"
  using assms(2)
proof (cases rule: valid_move_shape)
  case (1 dest mids)
  show ?thesis
    by (rule make_move_on_board[OF assms(1) 1(2)]) (simp_all add: 1(1) 1(3))
qed

lemma valid_move_cells:
  assumes "wf_board (board g)" "(start, moves) \<in> set (get_valid_moves g)"
    and "on_board p"
  shows "cell (moved_board (board g) start moves) (fst p) (snd p) =
           (if p = last moves
            then promoted (cell (board g) (fst start) (snd start)) (fst (last moves))
            else if p = start \<or> p \<in> set (capture_midpoints start moves)
            then 0
            else cell (board g) (fst p) (snd p))"
  using assms(2)
proof (cases rule: valid_move_shape)
  case (1 dest mids)
  have v: "is_valid_position (fst p) (snd p)"
    using assms(3) by (simp add: on_board_def)
  have "list_all on_board moves" "moves \<noteq> []"
    by (simp_all add: 1(1) 1(3))
  from cell_moved_board[OF assms(1) 1(2) this v] show ?thesis
    by simp
qed

lemma valid_move_count:
  assumes "wf_board (board g)" "(start, moves) \<in> set (get_valid_moves g)"
  shows "count_pieces (moved_board (board g) start moves) + capture_steps start moves =
           count_pieces (board g)"
  using assms(2)
proof (cases rule: valid_move_shape)
  case (1 dest mids)
  let ?N = "{p. on_board p \<and> cell (board g) (fst p) (snd p) \<noteq> 0}"
  let ?N' = "{p. on_board p \<and> cell (moved_board (board g) start moves) (fst p) (snd p) \<noteq> 0}"
  have cells: "cell (moved_board (board g) start moves) (fst p) (snd p) =
           (if p = dest
            then promoted (cell (board g) (fst start) (snd start)) (fst dest)
            else if p = start \<or> p \<in> set mids then 0
            else cell (board g) (fst p) (snd p))" if "on_board p" for p
    using valid_move_cells[OF assms that]
    by (simp add: 1(1) 1(7)[symmetric])
  have piece: "cell (board g) (fst start) (snd start) \<noteq> 0"
    using 1(5) by (rule current_piece_nonzero)
  have eq: "?N' = insert dest (?N - insert start (set mids))"
  proof (rule set_eqI)
    fix p
    show "p \<in> ?N' \<longleftrightarrow> p \<in> insert dest (?N - insert start (set mids))"
    proof (cases "on_board p")
      case True
      show ?thesis
        using True 1(3) 1(6) piece promoted_nonzero[OF piece, of "fst dest"]
        by (simp add: cells[OF True])
    next
      case False
      then show ?thesis using 1(3) by auto
    qed
  qed
  have fin: "finite ?N" by (rule finite_occupied)
  have start_in: "start \<in> ?N" using 1(2) piece by simp
  have dest_out: "dest \<notin> ?N" using 1(6) by simp
  from 1(8) show ?thesis
  proof (elim disjE conjE exE)
    assume mids: "mids = []"
    have "card ?N' = Suc (card (?N - {start}))"
      unfolding eq mids using fin dest_out by simp
    also have "\<dots> = card ?N"
      by (rule card_Suc_Diff1[OF fin start_in])
    finally show ?thesis
      by (simp add: count_pieces_card length_capture_midpoints[symmetric] 1(7) mids)
  next
    fix mid
    assume mids: "mids = [mid]" and m: "on_board mid" "mid \<noteq> start" "mid \<noteq> dest"
      "is_opponent_piece g (cell (board g) (fst mid) (snd mid))"
    have mid_in: "mid \<in> ?N - {start}"
      using m opponent_piece_nonzero[OF m(4)] by simp
    have "card ?N' = Suc (card ((?N - {start}) - {mid}))"
      unfolding eq mids using fin dest_out by (simp add: Diff_insert2[symmetric] insert_commute)
    then have "card ?N' + 1 = Suc (Suc (card ((?N - {start}) - {mid})))" by simp
    also have "\<dots> = Suc (card (?N - {start}))"
      using card_Suc_Diff1[OF finite_Diff[OF fin] mid_in] by simp
    also have "\<dots> = card ?N"
      by (rule card_Suc_Diff1[OF fin start_in])
    finally show ?thesis
      by (simp add: count_pieces_card length_capture_midpoints[symmetric] 1(7) mids)
  qed
qed

section \<open>Frame of a move\<close>

text \<open>
  Claim C8. For a move taken from the current \<open>get_valid_moves\<close> result,
  \<open>make_move\<close> raises nothing and negates \<open>current_player\<close>. On the board the
  start square becomes empty, the midpoint of every step whose row delta has
  magnitude 2 becomes empty, the final destination holds the moved piece
  (promoted when a man ends on its far row), and every other square of the board
  keeps its value.
\<close>

theorem make_move_frame:
  assumes "wf_board (board g)" and "(start, moves) \<in> set (get_valid_moves g)"
    and "make_move g start moves = (r, g')"
  shows "r = None \<and>
         current_player g' = - current_player g \<and>
         wf_board (board g') \<and>
         cell (board g') (fst start) (snd start) = 0 \<and>
         (\<forall>m \<in> set (capture_midpoints start moves). cell (board g') (fst m) (snd m) = 0) \<and>
         cell (board g') (fst (last moves)) (snd (last moves)) =
           (if cell (board g) (fst start) (snd start) = 1 \<and> fst (last moves) = 7 then 2
            else if cell (board g) (fst start) (snd start) = 3 \<and> fst (last moves) = 0 then 4
            else cell (board g) (fst start) (snd start)) \<and>
         (\<forall>row col. is_valid_position row col \<and> (row, col) \<noteq> start \<and>
              (row, col) \<notin> set (capture_midpoints start moves) \<and> (row, col) \<noteq> last moves \<longrightarrow>
              cell (board g') row col = cell (board g) row col)"
  using assms(2)
proof (cases rule: valid_move_shape)
  case (1 dest mids)
  have res: "r = None" "g' = g\<lparr>board := moved_board (board g) start moves,
                    current_player := - current_player g\<rparr>"
    using valid_move_result[OF assms(1,2)] assms(3) by simp_all
  have b': "board g' = moved_board (board g) start moves"
    by (simp add: res(2))
  note cells = valid_move_cells[OF assms(1,2)]
  have mids_on: "on_board m" and mid_not_dest: "m \<noteq> dest"
    if "m \<in> set (capture_midpoints start moves)" for m
    using that 1(7) 1(8) by auto
  have "cell (board g') (fst start) (snd start) = 0"
    unfolding b' using cells[OF 1(2)] 1(4) by (simp add: 1(1))
  moreover have "\<forall>m \<in> set (capture_midpoints start moves). cell (board g') (fst m) (snd m) = 0"
  proof
    fix m assume m: "m \<in> set (capture_midpoints start moves)"
    show "cell (board g') (fst m) (snd m) = 0"
      unfolding b' using cells[OF mids_on[OF m]] mid_not_dest[OF m] m by (simp add: 1(1))
  qed
  moreover have "cell (board g') (fst (last moves)) (snd (last moves)) =
      promoted (cell (board g) (fst start) (snd start)) (fst (last moves))"
    unfolding b' using cells[OF 1(3)] by (simp add: 1(1))
  moreover have "\<forall>row col. is_valid_position row col \<and> (row, col) \<noteq> start \<and>
              (row, col) \<notin> set (capture_midpoints start moves) \<and> (row, col) \<noteq> last moves \<longrightarrow>
              cell (board g') row col = cell (board g) row col"
  proof (intro allI impI)
    fix row col
    assume h: "is_valid_position row col \<and> (row, col) \<noteq> start \<and>
              (row, col) \<notin> set (capture_midpoints start moves) \<and> (row, col) \<noteq> last moves"
    then have "on_board (row, col)" by (simp add: on_board_def)
    from cells[OF this] h show "cell (board g') row col = cell (board g) row col"
      unfolding b' by simp
  qed
  moreover have "wf_board (board g')"
    unfolding b' using assms(1) by (rule wf_moved_board)
  ultimately show ?thesis
    using res by (simp add: promoted_def)
qed

lemma chain_game_wf: "wf_board (board chain_game)"
  by code_simp

lemma chain_game_capture: "((4, 3), [(6, 5)]) \<in> set (get_valid_moves chain_game)"
  by code_simp

lemma chain_game_capture_result:
  "make_move chain_game (4, 3) [(6, 5)] =
    (None, \<lparr>board =
      [[0, 0, 0, 0, 0, 0, 0, 0],
       [0, 0, 0, 0, 0, 0, 0, 0],
       [0, 0, 0, 0, 0, 0, 0, 0],
       [0, 0, 0, 0, 0, 0, 0, 0],
       [0, 0, 0, 0, 0, 0, 0, 0],
       [0, 0, 0, 0, 0, 0, 3, 0],
       [0, 0, 0, 0, 0, 1, 0, 0],
       [0, 0, 0, 0, 0, 0, 0, 0]],
     current_player = - 1\<rparr>)"
  by code_simp

theorem make_move_frame_witness:
  "wf_board (board chain_game) \<and>
   ((4, 3), [(6, 5)]) \<in> set (get_valid_moves chain_game) \<and>
   fst (make_move chain_game (4, 3) [(6, 5)]) = None \<and>
   current_player (snd (make_move chain_game (4, 3) [(6, 5)])) = - 1 \<and>
   cell (board (snd (make_move chain_game (4, 3) [(6, 5)]))) 4 3 = 0 \<and>
   cell (board (snd (make_move chain_game (4, 3) [(6, 5)]))) 5 4 = 0 \<and>
   cell (board (snd (make_move chain_game (4, 3) [(6, 5)]))) 6 5 = 1 \<and>
   cell (board (snd (make_move chain_game (4, 3) [(6, 5)]))) 5 6 = 3"
  using make_move_frame[OF chain_game_wf chain_game_capture chain_game_capture_result]
    chain_game_wf chain_game_capture
  by (simp add: chain_game_capture_result cell_def)

section \<open>Conservation of pieces\<close>

text \<open>
  Claim C5. For a move taken from the current \<open>get_valid_moves\<close> result,
  \<open>make_move\<close> lowers the number of non-empty squares by exactly the number of
  steps whose row delta has magnitude 2, so the number never grows. Every square
  other than the start, the jumped squares and the destination keeps its value;
  the moved piece arrives with its side, and with its rank unless it is a man
  ending on its far row, which becomes a king.
\<close>

theorem make_move_conservation:
  assumes "wf_board (board g)" and "(start, moves) \<in> set (get_valid_moves g)"
    and "make_move g start moves = (r, g')"
  shows "r = None \<and>
         count_pieces (board g') + capture_steps start moves = count_pieces (board g) \<and>
         count_pieces (board g') \<le> count_pieces (board g) \<and>
         (\<forall>row col. is_valid_position row col \<and> (row, col) \<noteq> start \<and>
              (row, col) \<notin> set (capture_midpoints start moves) \<and> (row, col) \<noteq> last moves \<longrightarrow>
              cell (board g') row col = cell (board g) row col) \<and>
         side_of (cell (board g') (fst (last moves)) (snd (last moves))) =
           side_of (cell (board g) (fst start) (snd start)) \<and>
         (is_king (cell (board g') (fst (last moves)) (snd (last moves))) \<longleftrightarrow>
            is_king (cell (board g) (fst start) (snd start)) \<or>
            cell (board g) (fst start) (snd start) = 1 \<and> fst (last moves) = 7 \<or>
            cell (board g) (fst start) (snd start) = 3 \<and> fst (last moves) = 0)"
  using assms(2)
proof (cases rule: valid_move_shape)
  case (1 dest mids)
  have res: "r = None" "g' = g\<lparr>board := moved_board (board g) start moves,
                    current_player := - current_player g\<rparr>"
    using valid_move_result[OF assms(1,2)] assms(3) by simp_all
  have b': "board g' = moved_board (board g) start moves"
    by (simp add: res(2))
  note cells = valid_move_cells[OF assms(1,2)]
  have count: "count_pieces (board g') + capture_steps start moves = count_pieces (board g)"
    unfolding b' by (rule valid_move_count[OF assms(1,2)])
  have frame: "\<forall>row col. is_valid_position row col \<and> (row, col) \<noteq> start \<and>
              (row, col) \<notin> set (capture_midpoints start moves) \<and> (row, col) \<noteq> last moves \<longrightarrow>
              cell (board g') row col = cell (board g) row col"
  proof (intro allI impI)
    fix row col
    assume h: "is_valid_position row col \<and> (row, col) \<noteq> start \<and>
              (row, col) \<notin> set (capture_midpoints start moves) \<and> (row, col) \<noteq> last moves"
    then have "on_board (row, col)" by (simp add: on_board_def)
    from cells[OF this] h show "cell (board g') row col = cell (board g) row col"
      unfolding b' by simp
  qed
  have moved: "cell (board g') (fst (last moves)) (snd (last moves)) =
      promoted (cell (board g) (fst start) (snd start)) (fst (last moves))"
    unfolding b' using cells[OF 1(3)] by (simp add: 1(1))
  have side: "side_of (promoted piece row) = side_of piece" for piece row
    by (simp add: promoted_def side_of_def)
  have king: "is_king (promoted piece row) \<longleftrightarrow>
      is_king piece \<or> piece = 1 \<and> row = 7 \<or> piece = 3 \<and> row = 0" for piece row
    by (auto simp: promoted_def is_king_def)
  from count have "count_pieces (board g') \<le> count_pieces (board g)" by simp
  with res(1) count frame show ?thesis
    unfolding moved side king by simp
qed

theorem make_move_conservation_witness:
  "wf_board (board chain_game) \<and>
   ((4, 3), [(6, 5)]) \<in> set (get_valid_moves chain_game) \<and>
   fst (make_move chain_game (4, 3) [(6, 5)]) = None \<and>
   count_pieces (board chain_game) = 3 \<and>
   capture_steps (4, 3) [(6, 5)] = 1 \<and>
   count_pieces (board (snd (make_move chain_game (4, 3) [(6, 5)]))) = 2 \<and>
   cell (board (snd (make_move chain_game (4, 3) [(6, 5)]))) 6 5 = 1 \<and>
   cell (board (snd (make_move chain_game (4, 3) [(6, 5)]))) 5 6 = 3"
proof -
  have c: "count_pieces (board chain_game) = 3"
    by code_simp
  have s: "capture_steps (4, 3) [(6, 5)] = 1"
    by simp
  show ?thesis
    using make_move_conservation[OF chain_game_wf chain_game_capture chain_game_capture_result]
      chain_game_wf chain_game_capture c
    by (simp add: chain_game_capture_result cell_def)
qed

section \<open>Mandatory capture\<close>

lemma captures_exist:
  assumes "is_valid_position row col"
    and "is_current_players_piece g (cell (board g) row col)"
    and "get_capture_moves g row col \<noteq> []"
  shows "concat (map (captures_of g) all_positions) \<noteq> []"
proof -
  have "(row, col) \<in> set all_positions"
    using assms(1) by (simp add: set_all_positions)
  moreover have "captures_of g (row, col) \<noteq> []"
    using assms(2,3) by (simp add: captures_of_def)
  ultimately show ?thesis by auto
qed

text \<open>
  Claim C2. If some piece of the player to move has a capture chain, then
  \<open>get_valid_moves\<close> returns exactly the capture candidates of all squares: every
  move returned is a capture found by the search from its start square, none is
  a simple move, and the simple moves of every piece, also of pieces without a
  capture, are left out.
\<close>

theorem mandatory_capture:
  assumes "is_valid_position row col"
    and "is_current_players_piece g (cell (board g) row col)"
    and "get_capture_moves g row col \<noteq> []"
  shows "get_valid_moves g = concat (map (captures_of g) all_positions) \<and>
         (\<forall>m \<in> set (get_valid_moves g).
            snd m \<in> set (get_capture_moves g (fst (fst m)) (snd (fst m))) \<and>
            is_capture_move (fst m) (snd m) \<and> \<not> is_simple_move (fst m) (snd m)) \<and>
         (\<forall>p \<in> set all_positions. \<forall>dest \<in> set (get_normal_moves g (fst p) (snd p)).
            (p, [dest]) \<notin> set (get_valid_moves g))"
proof -
  have ne: "concat (map (captures_of g) all_positions) \<noteq> []"
    using assms by (rule captures_exist)
  then have eq: "get_valid_moves g = concat (map (captures_of g) all_positions)"
    by (simp add: get_valid_moves_eq)
  have cap: "snd m \<in> set (get_capture_moves g (fst (fst m)) (snd (fst m))) \<and>
      is_capture_move (fst m) (snd m) \<and> \<not> is_simple_move (fst m) (snd m)"
    if m: "m \<in> set (get_valid_moves g)" for m
  proof -
    obtain start moves where sm: "m = (start, moves)" by (cases m)
    from m obtain p where "(start, moves) \<in> set (captures_of g p)"
      unfolding eq sm by auto
    then obtain d where d: "d \<in> set (capture_directions (cell (board g) (fst start) (snd start)))"
      "can_jump g (fst start) (snd start) {} d"
      "moves = [(fst start + fst d, snd start + snd d)]"
      unfolding in_captures_of by blast
    have "\<bar>fst d\<bar> = 2" "\<bar>snd d\<bar> = 2"
      using capture_direction_abs[OF d(1)] by simp_all
    then have "is_capture_move start moves" "\<not> is_simple_move start moves"
      by (simp_all add: is_capture_move_def is_simple_move_def d(3))
    moreover have "moves \<in> set (get_capture_moves g (fst start) (snd start))"
      using d by (auto simp: get_capture_moves_eq)
    ultimately show ?thesis by (simp add: sm)
  qed
  have simple: "(p, [dest]) \<notin> set (get_valid_moves g)"
    if "dest \<in> set (get_normal_moves g (fst p) (snd p))" for p dest
  proof
    assume "(p, [dest]) \<in> set (get_valid_moves g)"
    from cap[OF this] have "\<not> is_simple_move p [dest]" by simp
    moreover from that obtain d where
      "d \<in> set (normal_directions (cell (board g) (fst p) (snd p)))"
      "dest = (fst p + fst d, snd p + snd d)"
      by (auto simp: get_normal_moves_eq)
    then have "is_simple_move p [dest]"
      using normal_direction_abs[of d] by (simp add: is_simple_move_def)
    ultimately show False by simp
  qed
  show ?thesis
    using eq cap simple by blast
qed

lemma capture_game_piece:
  "is_valid_position 4 3 \<and>
   is_current_players_piece capture_game (cell (board capture_game) 4 3) \<and>
   get_capture_moves capture_game 4 3 \<noteq> []"
  by code_simp

theorem mandatory_capture_witness:
  "is_valid_position 4 3 \<and>
   is_current_players_piece capture_game (cell (board capture_game) 4 3) \<and>
   get_capture_moves capture_game 4 3 \<noteq> [] \<and>
   is_current_players_piece capture_game (cell (board capture_game) 0 1) \<and>
   get_normal_moves capture_game 0 1 = [(1, 0), (1, 2)] \<and>
   get_valid_moves capture_game = [((4, 3), [(6, 5)])] \<and>
   get_valid_moves capture_game = concat (map (captures_of capture_game) all_positions) \<and>
   ((0, 1), [(1, 0)]) \<notin> set (get_valid_moves capture_game)"
proof -
  have h: "is_valid_position 4 3"
    "is_current_players_piece capture_game (cell (board capture_game) 4 3)"
    "get_capture_moves capture_game 4 3 \<noteq> []"
    using capture_game_piece by simp_all
  have other: "is_current_players_piece capture_game (cell (board capture_game) 0 1)"
    "get_normal_moves capture_game 0 1 = [(1, 0), (1, 2)]"
    by code_simp+
  have moves: "get_valid_moves capture_game = [((4, 3), [(6, 5)])]"
    by code_simp
  from mandatory_capture[OF h] have
    "get_valid_moves capture_game = concat (map (captures_of capture_game) all_positions)"
    by simp
  with h other moves show ?thesis by simp
qed

section \<open>Promotion\<close>

text \<open>
  Claim C6. When \<open>make_move\<close> walks a piece along a sequence of squares of the
  board, a Black man (value 1) whose final destination is on row 7 is placed
  there as a king (value 2), and a White man (value 3) whose final destination
  is on row 0 is placed there as a king (value 4). Only the final destination
  counts: a man whose final destination is on another row is placed there as a
  man, whatever rows the earlier steps reached, and no piece is written on an
  earlier landing square.
\<close>

theorem promotion_on_final_square:
  assumes "wf_board (board g)" and "on_board start" and "list_all on_board moves"
    and "moves \<noteq> []" and "make_move g start moves = (r, g')"
  shows "r = None \<and>
         (cell (board g) (fst start) (snd start) = 1 \<and> fst (last moves) = 7 \<longrightarrow>
            cell (board g') (fst (last moves)) (snd (last moves)) = 2) \<and>
         (cell (board g) (fst start) (snd start) = 3 \<and> fst (last moves) = 0 \<longrightarrow>
            cell (board g') (fst (last moves)) (snd (last moves)) = 4) \<and>
         (cell (board g) (fst start) (snd start) = 1 \<and> fst (last moves) \<noteq> 7 \<longrightarrow>
            cell (board g') (fst (last moves)) (snd (last moves)) = 1) \<and>
         (cell (board g) (fst start) (snd start) = 3 \<and> fst (last moves) \<noteq> 0 \<longrightarrow>
            cell (board g') (fst (last moves)) (snd (last moves)) = 3) \<and>
         (\<forall>q \<in> set (butlast moves).
            q \<noteq> last moves \<and> q \<noteq> start \<and> q \<notin> set (capture_midpoints start moves) \<longrightarrow>
            cell (board g') (fst q) (snd q) = cell (board g) (fst q) (snd q))"
proof -
  have res: "r = None" "board g' = moved_board (board g) start moves"
    using make_move_on_board[OF assms(1-4)] assms(5) by auto
  have lastv: "is_valid_position (fst (last moves)) (snd (last moves))"
    using last_on_board[OF assms(3,4)] by (simp add: on_board_def)
  have final: "cell (board g') (fst (last moves)) (snd (last moves)) =
      promoted (cell (board g) (fst start) (snd start)) (fst (last moves))"
    unfolding res(2) using cell_moved_board[OF assms(1-4) lastv] by simp
  have inter: "cell (board g') (fst q) (snd q) = cell (board g) (fst q) (snd q)"
    if q: "q \<in> set (butlast moves)" "q \<noteq> last moves" "q \<noteq> start"
      "q \<notin> set (capture_midpoints start moves)" for q
  proof -
    have "q \<in> set moves" using q(1) by (rule in_set_butlastD)
    then have "is_valid_position (fst q) (snd q)"
      using assms(3) by (auto simp: list_all_iff on_board_def)
    from cell_moved_board[OF assms(1-4) this] q show ?thesis
      unfolding res(2) by simp
  qed
  show ?thesis
    using res(1) inter unfolding final by (simp add: promoted_def)
qed

theorem promotion_on_final_square_witness:
  "wf_board (board promotion_game) \<and> on_board (5, 2) \<and>
   list_all on_board [(7, 4), (5, 6)] \<and> list_all on_board [(7, 4)] \<and>
   cell (board promotion_game) 5 2 = 1 \<and>
   fst (make_move promotion_game (5, 2) [(7, 4), (5, 6)]) = None \<and>
   cell (board (snd (make_move promotion_game (5, 2) [(7, 4), (5, 6)]))) 5 6 = 1 \<and>
   cell (board (snd (make_move promotion_game (5, 2) [(7, 4), (5, 6)]))) 7 4 = 0 \<and>
   cell (board (snd (make_move promotion_game (5, 2) [(7, 4)]))) 7 4 = 2 \<and>
   cell (board promotion_game) 1 0 = 3 \<and>
   cell (board (snd (make_move promotion_game (1, 0) [(0, 1)]))) 0 1 = 4"
proof -
  have wf: "wf_board (board promotion_game)" by code_simp
  have s: "on_board (5, 2)" "on_board (1, 0)" by code_simp+
  have m: "list_all on_board [(7, 4), (5, 6)]" "list_all on_board [(7, 4)]"
    "list_all on_board [(0, 1)]" by code_simp+
  have c: "cell (board promotion_game) 5 2 = 1" "cell (board promotion_game) 1 0 = 3"
    "cell (board promotion_game) 7 4 = 0"
    by code_simp+
  have r1: "make_move promotion_game (5, 2) [(7, 4), (5, 6)] =
      (fst (make_move promotion_game (5, 2) [(7, 4), (5, 6)]),
       snd (make_move promotion_game (5, 2) [(7, 4), (5, 6)]))"
    and r2: "make_move promotion_game (5, 2) [(7, 4)] =
      (fst (make_move promotion_game (5, 2) [(7, 4)]),
       snd (make_move promotion_game (5, 2) [(7, 4)]))"
    and r3: "make_move promotion_game (1, 0) [(0, 1)] =
      (fst (make_move promotion_game (1, 0) [(0, 1)]),
       snd (make_move promotion_game (1, 0) [(0, 1)]))"
    by simp_all
  show ?thesis
    using promotion_on_final_square[OF wf s(1) m(1) _ r1]
      promotion_on_final_square[OF wf s(1) m(2) _ r2]
      promotion_on_final_square[OF wf s(2) m(3) _ r3]
      wf s m c
    by simp
qed

section \<open>Moves outside the enumeration\<close>

text \<open>
  Claim C4 as stated fails: in the initial position the move of the White man
  from \<open>(5, 0)\<close> to \<open>(4, 1)\<close> is not in the \<open>get_valid_moves\<close> result (Black is
  to move), yet \<open>make_move\<close> raises nothing and changes the engine state. A
  destination outside the board raises \<open>IndexError\<close> after the start square has
  already been cleared.
\<close>

theorem illegal_move_applied:
  "((5, 0), [(4, 1)]) \<notin> set (get_valid_moves new_game) \<and>
   fst (make_move new_game (5, 0) [(4, 1)]) = None \<and>
   snd (make_move new_game (5, 0) [(4, 1)]) \<noteq> new_game \<and>
   cell (board (snd (make_move new_game (5, 0) [(4, 1)]))) 4 1 = 3 \<and>
   current_player (snd (make_move new_game (5, 0) [(4, 1)])) = - 1 \<and>
   ((2, 1), [(8, 1)]) \<notin> set (get_valid_moves new_game) \<and>
   fst (make_move new_game (2, 1) [(8, 1)]) = Some IndexError \<and>
   cell (board new_game) 2 1 = 1 \<and>
   cell (board (snd (make_move new_game (2, 1) [(8, 1)]))) 2 1 = 0"
  by code_simp

text \<open>
  Claim C4 as amended. \<open>make_move\<close> does not look at the \<open>get_valid_moves\<close>
  result: for a move that is not in it and whose squares are all on the board,
  the call raises nothing, negates \<open>current_player\<close> and leaves the board with
  the start square cleared, the midpoints of the steps over two rows cleared and
  the piece of the start square (promoted on its far row) on the last
  destination.
\<close>

theorem make_move_unchecked:
  assumes "wf_board (board g)" and "on_board start" and "list_all on_board moves"
    and "(start, moves) \<notin> set (get_valid_moves g)"
    and "make_move g start moves = (r, g')"
  shows "r = None \<and>
         current_player g' = - current_player g \<and>
         board g' =
           (if moves = [] then set_cell (board g) (fst start) (snd start) 0
            else moved_board (board g) start moves)"
proof (cases "moves = []")
  case True
  have v: "is_valid_position (fst start) (snd start)"
    using assms(2) by (simp add: on_board_def)
  have "make_move g start [] =
      (None, g\<lparr>board := set_cell (board g) (fst start) (snd start) 0,
               current_player := - current_player g\<rparr>)"
    by (simp add: make_move_def case_prod_unfold board_get_valid[OF assms(1) v]
        board_set_valid[OF assms(1) v])
  then show ?thesis
    using assms(5) True by auto
next
  case False
  from make_move_on_board[OF assms(1-3) False] assms(5) False show ?thesis
    by auto
qed

theorem make_move_unchecked_witness:
  "wf_board (board new_game) \<and> on_board (5, 0) \<and> list_all on_board [(4, 1)] \<and>
   ((5, 0), [(4, 1)]) \<notin> set (get_valid_moves new_game) \<and>
   fst (make_move new_game (5, 0) [(4, 1)]) = None \<and>
   current_player (snd (make_move new_game (5, 0) [(4, 1)])) = - 1 \<and>
   board (snd (make_move new_game (5, 0) [(4, 1)])) =
     moved_board (board new_game) (5, 0) [(4, 1)]"
proof -
  have wf: "wf_board (board new_game)" by code_simp
  have s: "on_board (5, 0)" by code_simp
  have m: "list_all on_board [(4, 1)]" by code_simp
  have n: "((5, 0), [(4, 1)]) \<notin> set (get_valid_moves new_game)" by code_simp
  have p: "current_player new_game = 1" by (simp add: new_game_def)
  have r: "make_move new_game (5, 0) [(4, 1)] =
      (fst (make_move new_game (5, 0) [(4, 1)]), snd (make_move new_game (5, 0) [(4, 1)]))"
    by simp
  show ?thesis
    using make_move_unchecked[OF wf s m n r] wf s m n p by simp
qed

section \<open>Only dark squares are occupied\<close>

lemma dark_only_iff:
  "dark_only b \<longleftrightarrow>
     (\<forall>p. on_board p \<and> (fst p + snd p) mod 2 = 0 \<longrightarrow> cell b (fst p) (snd p) = 0)"
  by (auto simp: dark_only_def list_all_iff set_all_positions on_board_def)

lemma new_game_wf: "wf_board (board new_game)"
  by code_simp

lemma new_game_dark_only: "dark_only (board new_game)"
  by code_simp

lemma step_parity:
  fixes a b c d :: int
  assumes "\<bar>a - c\<bar> = 1 \<and> \<bar>b - d\<bar> = 1 \<or> \<bar>a - c\<bar> = 2 \<and> \<bar>b - d\<bar> = 2"
  shows "(a + b) mod 2 = (c + d) mod 2"
  using assms by presburger

lemma valid_move_dark_only:
  assumes "wf_board (board g)" and "dark_only (board g)"
    and "(start, moves) \<in> set (get_valid_moves g)"
  shows "dark_only (board (snd (make_move g start moves)))"
  using assms(3)
proof (cases rule: valid_move_shape)
  case (1 dest mids)
  have b': "board (snd (make_move g start moves)) = moved_board (board g) start moves"
    by (simp add: valid_move_result[OF assms(1,3)])
  note cells = valid_move_cells[OF assms(1,3)]
  have dark: "cell (board g) (fst p) (snd p) = 0"
    if "on_board p" "(fst p + snd p) mod 2 = 0" for p
    using assms(2) that by (simp add: dark_only_iff)
  have piece: "cell (board g) (fst start) (snd start) \<noteq> 0"
    using 1(5) by (rule current_piece_nonzero)
  have start_odd: "(fst start + snd start) mod 2 \<noteq> 0"
  proof
    assume "(fst start + snd start) mod 2 = 0"
    from dark[OF 1(2) this] piece show False by simp
  qed
  have "(fst dest + snd dest) mod 2 = (fst start + snd start) mod 2"
    by (rule step_parity) (use 1(8) in auto)
  with start_odd have dest_odd: "(fst dest + snd dest) mod 2 \<noteq> 0"
    by simp
  show ?thesis
    unfolding b' dark_only_iff
  proof (intro allI impI)
    fix p
    assume p: "on_board p \<and> (fst p + snd p) mod 2 = 0"
    then have "p \<noteq> dest" using dest_odd by auto
    with cells[of p] p dark[of p]
    show "cell (moved_board (board g) start moves) (fst p) (snd p) = 0"
      by (simp add: 1(1))
  qed
qed

lemma valid_move_wf:
  assumes "wf_board (board g)" and "(start, moves) \<in> set (get_valid_moves g)"
  shows "wf_board (board (snd (make_move g start moves)))"
  by (simp add: valid_move_result[OF assms] wf_moved_board[OF assms(1)])

lemma reachable_invariant: "reachable g \<Longrightarrow> wf_board (board g) \<and> dark_only (board g)"
proof (induction rule: reachable.induct)
  case initial
  show ?case using new_game_wf new_game_dark_only by simp
next
  case (move g start moves)
  then show ?case
    using valid_move_wf valid_move_dark_only by blast
qed

text \<open>
  Claim C9. In the initial board every square with \<open>row + col\<close> even is empty;
  \<open>make_move\<close> with a move of the current \<open>get_valid_moves\<close> result keeps that
  property; hence in every state reachable from the initial one only squares
  with \<open>row + col\<close> odd are non-empty.
\<close>

theorem dark_squares_invariant:
  "dark_only (board new_game) \<and>
   (\<forall>g start moves.
      wf_board (board g) \<and> dark_only (board g) \<and> (start, moves) \<in> set (get_valid_moves g) \<longrightarrow>
      dark_only (board (snd (make_move g start moves)))) \<and>
   (\<forall>g. reachable g \<longrightarrow>
      (\<forall>row col. is_valid_position row col \<and> cell (board g) row col \<noteq> 0 \<longrightarrow>
         (row + col) mod 2 = 1))"
proof (intro conjI allI impI)
  show "dark_only (board new_game)" by (rule new_game_dark_only)
next
  fix g start moves
  assume "wf_board (board g) \<and> dark_only (board g) \<and> (start, moves) \<in> set (get_valid_moves g)"
  then show "dark_only (board (snd (make_move g start moves)))"
    using valid_move_dark_only by blast
next
  fix g row col
  assume "reachable g" and h: "is_valid_position row col \<and> cell (board g) row col \<noteq> 0"
  then have "dark_only (board g)" using reachable_invariant by blast
  then have "(row + col) mod 2 \<noteq> 0"
    using h unfolding dark_only_iff on_board_def by fastforce
  then show "(row + col) mod 2 = 1" by presburger
qed

theorem dark_squares_invariant_witness:
  "reachable (snd (make_move new_game (2, 1) [(3, 0)])) \<and>
   wf_board (board new_game) \<and> dark_only (board new_game) \<and>
   ((2, 1), [(3, 0)]) \<in> set (get_valid_moves new_game) \<and>
   dark_only (board (snd (make_move new_game (2, 1) [(3, 0)]))) \<and>
   is_valid_position 3 0 \<and>
   cell (board (snd (make_move new_game (2, 1) [(3, 0)]))) 3 0 = 1 \<and>
   (3 + 0) mod 2 = (1::int)"
proof -
  have v: "((2, 1), [(3, 0)]) \<in> set (get_valid_moves new_game)" by code_simp
  have r: "reachable (snd (make_move new_game (2, 1) [(3, 0)]))"
    using reachable.move[OF reachable.initial v] .
  have p: "is_valid_position 3 0"
    "cell (board (snd (make_move new_game (2, 1) [(3, 0)]))) 3 0 = 1"
    by code_simp+
  from dark_squares_invariant have
    "dark_only (board (snd (make_move new_game (2, 1) [(3, 0)])))"
    using new_game_wf new_game_dark_only v by blast
  moreover from dark_squares_invariant r p have "(3 + 0) mod 2 = (1::int)"
    by simp
  ultimately show ?thesis
    using r v p new_game_wf new_game_dark_only by simp
qed

section \<open>The two-jump example\<close>

text \<open>
  Claim C1 as stated fails: on the board that holds only a Black man at
  \<open>(4, 3)\<close> and White men at \<open>(5, 4)\<close> and \<open>(5, 6)\<close>, with Black to move,
  \<open>get_valid_moves\<close> does not return the two-jump chain.
\<close>

theorem two_jump_chain_not_returned:
  "get_valid_moves chain_game \<noteq> [((4, 3), [(6, 5), (4, 7)])]"
  by code_simp

lemma man_jump_listed:
  assumes "current_player g = 1"
    and "cell (board g) 4 3 = 1" and "cell (board g) 5 4 = 3" and "cell (board g) 6 5 = 0"
  shows "((4, 3), [(6, 5)]) \<in> set (get_valid_moves g)"
proof -
  have d: "(2, 2) \<in> set (capture_directions (cell (board g) 4 3))"
    by (simp add: assms(2) capture_directions_def)
  have j: "can_jump g 4 3 {} (2, 2)"
    by (simp add: can_jump_def is_valid_position_def is_opponent_piece_def assms)
  have c: "is_current_players_piece g (cell (board g) 4 3)"
    by (simp add: is_current_players_piece_def assms)
  have "((4, 3), [(6, 5)]) \<in> set (captures_of g (4, 3))"
    unfolding in_captures_of using c d j by force
  moreover have "(4, 3) \<in> set all_positions"
    by (simp add: set_all_positions is_valid_position_def)
  ultimately have m: "((4, 3), [(6, 5)]) \<in> set (concat (map (captures_of g) all_positions))"
    by auto
  have "concat (map (captures_of g) all_positions) \<noteq> []"
  proof
    assume "concat (map (captures_of g) all_positions) = []"
    with m show False by simp
  qed
  with m show ?thesis
    by (simp add: get_valid_moves_eq)
qed

text \<open>
  Claim C1 as amended. In every board state with Black to move, a Black man at
  \<open>(4, 3)\<close>, White men at \<open>(5, 4)\<close> and \<open>(5, 6)\<close> and empty squares \<open>(6, 5)\<close> and
  \<open>(4, 7)\<close>, \<open>get_valid_moves\<close> contains the one-jump chain
  \<open>((4, 3), [(6, 5)])\<close> and does not contain the two-jump chain
  \<open>((4, 3), [(6, 5), (4, 7)])\<close>: a man jumps toward increasing rows only, and the
  second jump goes back to row 4. Applying the two-jump chain with \<open>make_move\<close>
  all the same raises nothing, removes both White men and leaves a Black man at
  \<open>(4, 7)\<close>, with White to move.
\<close>

theorem two_jump_example:
  assumes "wf_board (board g)" and "current_player g = 1"
    and "cell (board g) 4 3 = 1" and "cell (board g) 5 4 = 3" and "cell (board g) 6 5 = 0"
    and "cell (board g) 5 6 = 3" and "cell (board g) 4 7 = 0"
    and "make_move g (4, 3) [(6, 5), (4, 7)] = (r, g')"
  shows "((4, 3), [(6, 5)]) \<in> set (get_valid_moves g) \<and>
         ((4, 3), [(6, 5), (4, 7)]) \<notin> set (get_valid_moves g) \<and>
         r = None \<and>
         cell (board g') 4 3 = 0 \<and> cell (board g') 5 4 = 0 \<and> cell (board g') 5 6 = 0 \<and>
         cell (board g') 6 5 = 0 \<and> cell (board g') 4 7 = 1 \<and>
         current_player g' = - 1"
proof -
  have listed: "((4, 3), [(6, 5)]) \<in> set (get_valid_moves g)"
    using assms(2-5) by (rule man_jump_listed)
  have not_listed: "((4, 3), [(6, 5), (4, 7)]) \<notin> set (get_valid_moves g)"
  proof
    assume "((4, 3), [(6, 5), (4, 7)]) \<in> set (get_valid_moves g)"
    then show False by (cases rule: valid_move_shape) simp
  qed
  have s: "on_board (4, 3)"
    by (simp add: on_board_def is_valid_position_def)
  have m: "list_all on_board [(6, 5), (4, 7)]"
    by (simp add: on_board_def is_valid_position_def)
  have res: "r = None" "board g' = moved_board (board g) (4, 3) [(6, 5), (4, 7)]"
    "current_player g' = - 1"
    using make_move_on_board[OF assms(1) s m] assms(2,8) by auto
  have mids: "capture_midpoints (4, 3) [(6, 5), (4, 7)] = [(5, 4), (5, 6)]"
    by simp
  have cells: "cell (board g') row col =
      (if (row, col) = (4, 7) then 1
       else if (row, col) = (4, 3) \<or> (row, col) \<in> set [(5, 4), (5, 6)] then 0
       else cell (board g) row col)" if "is_valid_position row col" for row col
    unfolding res(2) using cell_moved_board[OF assms(1) s m _ that]
    by (simp add: mids assms(3) promoted_def)
  have "cell (board g') 4 3 = 0" "cell (board g') 5 4 = 0" "cell (board g') 5 6 = 0"
    "cell (board g') 6 5 = 0" "cell (board g') 4 7 = 1"
    using assms(5) by (simp_all add: cells is_valid_position_def)
  with listed not_listed res show ?thesis by simp
qed

theorem two_jump_example_witness:
  "wf_board (board chain_game) \<and> current_player chain_game = 1 \<and>
   cell (board chain_game) 4 3 = 1 \<and> cell (board chain_game) 5 4 = 3 \<and>
   cell (board chain_game) 6 5 = 0 \<and> cell (board chain_game) 5 6 = 3 \<and>
   cell (board chain_game) 4 7 = 0 \<and>
   get_valid_moves chain_game = [((4, 3), [(6, 5)])] \<and>
   ((4, 3), [(6, 5), (4, 7)]) \<notin> set (get_valid_moves chain_game) \<and>
   fst (make_move chain_game (4, 3) [(6, 5), (4, 7)]) = None \<and>
   cell (board (snd (make_move chain_game (4, 3) [(6, 5), (4, 7)]))) 5 4 = 0 \<and>
   cell (board (snd (make_move chain_game (4, 3) [(6, 5), (4, 7)]))) 5 6 = 0 \<and>
   cell (board (snd (make_move chain_game (4, 3) [(6, 5), (4, 7)]))) 4 7 = 1 \<and>
   current_player (snd (make_move chain_game (4, 3) [(6, 5), (4, 7)])) = - 1"
proof -
  have p: "current_player chain_game = 1" by (simp add: chain_game_def)
  have c: "cell (board chain_game) 4 3 = 1" "cell (board chain_game) 5 4 = 3"
    "cell (board chain_game) 6 5 = 0" "cell (board chain_game) 5 6 = 3"
    "cell (board chain_game) 4 7 = 0"
    by code_simp+
  have v: "get_valid_moves chain_game = [((4, 3), [(6, 5)])]" by code_simp
  have r: "make_move chain_game (4, 3) [(6, 5), (4, 7)] =
      (fst (make_move chain_game (4, 3) [(6, 5), (4, 7)]),
       snd (make_move chain_game (4, 3) [(6, 5), (4, 7)]))"
    by simp
  show ?thesis
    using two_jump_example[OF chain_game_wf p c r] chain_game_wf p c v by simp
qed

text \<open>
  The search reads the piece of each recursive call from the landing square,
  which is empty, so it never extends a chain: also a Black king at \<open>(4, 3)\<close>,
  which may jump back to row 4, gets the one-jump chain only.
\<close>

lemma king_chain_not_extended:
  "get_valid_moves (chain_game\<lparr>board := set_cell (board chain_game) 4 3 2\<rparr>) =
     [((4, 3), [(6, 5)])]"
  by code_simp

section \<open>The initial position\<close>

lemma new_game_board:
  "board new_game =
     [[0, 1, 0, 1, 0, 1, 0, 1],
      [1, 0, 1, 0, 1, 0, 1, 0],
      [0, 1, 0, 1, 0, 1, 0, 1],
      [0, 0, 0, 0, 0, 0, 0, 0],
      [0, 0, 0, 0, 0, 0, 0, 0],
      [3, 0, 3, 0, 3, 0, 3, 0],
      [0, 3, 0, 3, 0, 3, 0, 3],
      [3, 0, 3, 0, 3, 0, 3, 0]]"
  by code_simp

text \<open>
  Claim C7. In the freshly initialised game (Black to move) \<open>get_valid_moves\<close>
  returns exactly seven moves; each starts on a Black man of row 2 and has the
  single destination one diagonal step away on row 3, an empty square of odd
  parity; no piece has a capture.
\<close>

theorem initial_valid_moves:
  "get_valid_moves new_game =
     [((2, 1), [(3, 0)]), ((2, 1), [(3, 2)]), ((2, 3), [(3, 2)]),
      ((2, 3), [(3, 4)]), ((2, 5), [(3, 4)]), ((2, 5), [(3, 6)]),
      ((2, 7), [(3, 6)])] \<and>
   length (get_valid_moves new_game) = 7 \<and>
   map (\<lambda>m. cell (board new_game) (fst (fst m)) (snd (fst m))) (get_valid_moves new_game) =
     [1, 1, 1, 1, 1, 1, 1] \<and>
   map (\<lambda>m. map (\<lambda>d. (cell (board new_game) (fst d) (snd d), (fst d + snd d) mod 2,
                         \<bar>fst d - fst (fst m)\<bar>, \<bar>snd d - snd (fst m)\<bar>)) (snd m))
     (get_valid_moves new_game) =
     [[(0, 1, 1, 1)], [(0, 1, 1, 1)], [(0, 1, 1, 1)], [(0, 1, 1, 1)],
      [(0, 1, 1, 1)], [(0, 1, 1, 1)], [(0, 1, 1, 1)]] \<and>
   concat (map (captures_of new_game) all_positions) = []"
  by code_simp

section \<open>The state copy\<close>

text \<open>
  Claim C3 (the code departs from it). \<open>get_state\<close> is documented to return a
  deep copy of the board, but the call does not succeed: in the initial game it
  raises \<open>AttributeError\<close>, and so it does for every board.
\<close>

theorem get_state_raises:
  "get_state new_game = Inl AttributeError \<and> (\<forall>g. get_state g \<noteq> Inr (board g))"
  by (simp add: get_state_def)

section \<open>The calls against the functions\<close>

declare find_capture_sequences_call.simps [simp del]

lemma can_jump_call_eq:
  "can_jump_call row col visited d s = (can_jump s row col visited d, s)"
  by (cases d)
    (auto simp: can_jump_call_def can_jump_def is_valid_position_call_def read_board_def
      is_opponent_piece_call_def is_opponent_piece_def is_valid_position_def)

lemma fold_jumps_call:
  fixes s :: game and row col :: int and cs :: "pos list" and visited :: "pos set"
  defines "step_call \<equiv> \<lambda>d acc.
           if fst (can_jump_call row col visited d (snd (snd acc)))
           then (let c = find_capture_sequences_call (row + fst d) (col + snd d)
                           (cs @ [(row + fst d, col + snd d)]) (fst (snd acc))
                           (insert (row + fst d, col + snd d) visited)
                           (snd (can_jump_call row col visited d (snd (snd acc))))
                 in (True, fst c, snd c))
           else (fst acc, fst (snd acc),
                 snd (can_jump_call row col visited d (snd (snd acc))))"
    and "step \<equiv> \<lambda>d acc.
           if can_jump s row col visited d
           then (True,
                 find_capture_sequences s (row + fst d) (col + snd d)
                   (cs @ [(row + fst d, col + snd d)]) (snd acc)
                   (insert (row + fst d, col + snd d) visited))
           else acc"
  assumes calls: "\<And>d al. d \<in> set ds \<Longrightarrow> can_jump s row col visited d \<Longrightarrow>
     find_capture_sequences_call (row + fst d) (col + snd d) (cs @ [(row + fst d, col + snd d)])
       al (insert (row + fst d, col + snd d) visited) s =
     (find_capture_sequences s (row + fst d) (col + snd d) (cs @ [(row + fst d, col + snd d)])
       al (insert (row + fst d, col + snd d) visited), s)"
  shows "fold step_call ds (f, al, s) =
           (fst (fold step ds (f, al)), snd (fold step ds (f, al)), s)"
  using calls
proof (induction ds arbitrary: f al)
  case Nil
  then show ?case by simp
next
  case (Cons d ds)
  have rest: "\<And>e al. e \<in> set ds \<Longrightarrow> can_jump s row col visited e \<Longrightarrow>
     find_capture_sequences_call (row + fst e) (col + snd e) (cs @ [(row + fst e, col + snd e)])
       al (insert (row + fst e, col + snd e) visited) s =
     (find_capture_sequences s (row + fst e) (col + snd e) (cs @ [(row + fst e, col + snd e)])
       al (insert (row + fst e, col + snd e) visited), s)"
    using Cons.prems by simp
  have head: "step_call d (f, al, s) = (fst (step d (f, al)), snd (step d (f, al)), s)"
  proof (cases "can_jump s row col visited d")
    case True
    have "find_capture_sequences_call (row + fst d) (col + snd d)
        (cs @ [(row + fst d, col + snd d)]) al (insert (row + fst d, col + snd d) visited) s =
      (find_capture_sequences s (row + fst d) (col + snd d) (cs @ [(row + fst d, col + snd d)])
        al (insert (row + fst d, col + snd d) visited), s)"
      using Cons.prems[of d al] True by simp
    then show ?thesis
      using True by (simp add: step_call_def step_def can_jump_call_eq)
  next
    case False
    then show ?thesis
      by (simp add: step_call_def step_def can_jump_call_eq)
  qed
  have "fold step_call (d # ds) (f, al, s) =
      fold step_call ds (fst (step d (f, al)), snd (step d (f, al)), s)"
    by (simp add: head)
  also have "\<dots> = (fst (fold step ds (step d (f, al))), snd (fold step ds (step d (f, al))), s)"
    using Cons.IH[OF rest, of "fst (step d (f, al))" "snd (step d (f, al))"] by simp
  finally show ?case by simp
qed

lemma find_capture_sequences_call_eq:
  "find_capture_sequences_call row col cs al visited s =
     (find_capture_sequences s row col cs al visited, s)"
proof (induction row col cs al visited s rule: find_capture_sequences_call.induct)
  case (1 row col cs al visited s)
  have calls: "find_capture_sequences_call (row + fst d) (col + snd d)
        (cs @ [(row + fst d, col + snd d)]) al' (insert (row + fst d, col + snd d) visited) s =
      (find_capture_sequences s (row + fst d) (col + snd d) (cs @ [(row + fst d, col + snd d)])
        al' (insert (row + fst d, col + snd d) visited), s)"
    if "d \<in> set (capture_directions (cell (board s) row col))"
      and "can_jump s row col visited d" for d al'
    using "1.IH"[OF refl refl, of d "can_jump_call row col visited d s" "(False, al', s)"] that
    by (simp add: read_board_def can_jump_call_eq)
  show ?case
    by (subst find_capture_sequences_call.simps, subst find_capture_sequences.simps)
      (simp add: read_board_def fold_jumps_call[OF calls] Let_def)
qed


lemma fold_normal_step_call:
  "fold (normal_step_call row col) ds (moves, s) =
     (moves @ map (\<lambda>d. (row + fst d, col + snd d))
        (filter (\<lambda>d. is_valid_position (row + fst d) (col + snd d) \<and>
                      cell (board s) (row + fst d) (col + snd d) = 0) ds), s)"
  by (induction ds arbitrary: moves)
    (simp_all add: normal_step_call_def is_valid_position_call_def read_board_def
      is_valid_position_def)

lemma get_normal_moves_call_eq:
  "get_normal_moves_call row col s = (get_normal_moves s row col, s)"
  by (simp add: get_normal_moves_call_def read_board_def fold_normal_step_call
      get_normal_moves_eq)

lemma get_capture_moves_call_eq:
  "get_capture_moves_call row col s = (get_capture_moves s row col, s)"
  by (simp add: get_capture_moves_call_def get_capture_moves_def
      find_capture_sequences_call_eq)

lemma is_current_players_piece_call_eq:
  "is_current_players_piece_call piece s = (is_current_players_piece s piece, s)"
  by (simp add: is_current_players_piece_call_def is_current_players_piece_def)

lemma scan_square_call_eq:
  "scan_square_call p (moves, capture_moves, s) =
     (fst (scan_square s p (moves, capture_moves)),
      snd (scan_square s p (moves, capture_moves)), s)"
  by (simp add: scan_square_call_def scan_square_def read_board_def
      is_current_players_piece_call_eq get_capture_moves_call_eq get_normal_moves_call_eq
      Let_def)

lemma fold_scan_square_call:
  "fold scan_square_call ps (moves, capture_moves, s) =
     (fst (fold (scan_square s) ps (moves, capture_moves)),
      snd (fold (scan_square s) ps (moves, capture_moves)), s)"
proof (induction ps arbitrary: moves capture_moves)
  case Nil
  show ?case by simp
next
  case (Cons p ps)
  show ?case
    using Cons.IH[of "fst (scan_square s p (moves, capture_moves))"
        "snd (scan_square s p (moves, capture_moves))"]
    by (simp add: scan_square_call_eq)
qed

lemma get_valid_moves_call_eq: "get_valid_moves_call s = (get_valid_moves s, s)"
  by (simp add: get_valid_moves_call_def get_valid_moves_def fold_scan_square_call Let_def)

section \<open>Enumeration leaves the engine unchanged\<close>

text \<open>
  Claim C10. The engine state handed through \<open>get_valid_moves\<close>, statement by
  statement and through the capture search and the other helpers it calls,
  comes back as it went in: after a call of \<open>get_valid_moves\<close>, and hence of
  \<open>is_game_over\<close> and of \<open>get_winner\<close>, the board and the player to move are
  those before the call. The same holds for every call of the capture search on
  its own, whatever square, sequence and visited set it is started with; and
  the values returned are those of the enumeration on that state.
\<close>

theorem enumeration_keeps_state:
  "snd (get_valid_moves_call g) = g \<and>
   snd (is_game_over_call g) = g \<and>
   snd (get_winner_call g) = g \<and>
   snd (find_capture_sequences_call row col current_sequence all_sequences visited g) = g \<and>
   snd (get_capture_moves_call row col g) = g \<and>
   snd (get_normal_moves_call row col g) = g \<and>
   fst (get_valid_moves_call g) = get_valid_moves g \<and>
   fst (is_game_over_call g) = is_game_over g \<and>
   fst (get_winner_call g) = get_winner g \<and>
   fst (find_capture_sequences_call row col current_sequence all_sequences visited g) =
     find_capture_sequences g row col current_sequence all_sequences visited"
  by (simp add: get_valid_moves_call_eq is_game_over_call_def get_winner_call_def
      is_game_over_def get_winner_def find_capture_sequences_call_eq
      get_capture_moves_call_eq get_normal_moves_call_eq)

theorem enumeration_keeps_state_witness:
  "snd (get_valid_moves_call chain_game) = chain_game \<and>
   snd (get_winner_call chain_game) = chain_game \<and>
   snd (find_capture_sequences_call 4 3 [] [] {} chain_game) = chain_game \<and>
   fst (find_capture_sequences_call 4 3 [] [] {} chain_game) = [[(6, 5)]] \<and>
   fst (get_valid_moves_call chain_game) = [((4, 3), [(6, 5)])]"
proof -
  have c: "find_capture_sequences chain_game 4 3 [] [] {} = [[(6, 5)]]"
    by code_simp
  have v: "get_valid_moves chain_game = [((4, 3), [(6, 5)])]"
    by code_simp
  show ?thesis
    using enumeration_keeps_state[of chain_game 4 3 "[]" "[]" "{}"] c v by simp
qed

end
